theory Spec2Isabelle
  imports Complex_Main "HOL-Library.AList" "HOL-Library.Sublist" "HOL-Library.Log_Nat"
begin

section \<open>Python values and strings\<close>

text \<open>
  The cover identifier and the ISBN of a record come out of the catalog's JSON: they are
  \<^verbatim>\<open>None\<close>, an integer or a string. A Python \<^verbatim>\<open>str\<close> is modelled as a \<open>string\<close>
  whose characters are the code points below 256.
\<close>

datatype pyval = PNone | PInt int | PStr string

text \<open>Truth value testing: \<^verbatim>\<open>None\<close>, \<^verbatim>\<open>0\<close> and \<^verbatim>\<open>''\<close> are false.\<close>

fun truthy :: "pyval \<Rightarrow> bool" where
  "truthy PNone = False"
| "truthy (PInt n) = (n \<noteq> 0)"
| "truthy (PStr s) = (s \<noteq> [])"

text \<open>\<^verbatim>\<open>a or b\<close>\<close>

definition py_or :: "pyval \<Rightarrow> pyval \<Rightarrow> pyval" where
  "py_or a b = (if truthy a then a else b)"

definition digit_char :: "nat \<Rightarrow> char" where
  "digit_char d = ''0123456789'' ! d"

fun digits10 :: "nat \<Rightarrow> string" where
  "digits10 n = (if n < 10 then [digit_char n] else digits10 (n div 10) @ [digit_char (n mod 10)])"

declare digits10.simps [simp del]

definition str_int :: "int \<Rightarrow> string" where
  "str_int i = (if i < 0 then CHR ''-'' # digits10 (nat (- i)) else digits10 (nat i))"

text \<open>\<^verbatim>\<open>str(v)\<close>, which is also what an f-string field \<^verbatim>\<open>{v}\<close> inserts.\<close>

fun py_str :: "pyval \<Rightarrow> string" where
  "py_str PNone = ''None''"
| "py_str (PInt n) = str_int n"
| "py_str (PStr s) = s"

text \<open>\<^verbatim>\<open>s.startswith(p)\<close>\<close>

definition startswith :: "string \<Rightarrow> string \<Rightarrow> bool" where
  "startswith s p = (take (length p) s = p)"

text \<open>
  \<^verbatim>\<open>s.replace(old, new)\<close>: every non-overlapping occurrence of \<open>old\<close>, scanning from
  the left, is replaced. With an empty \<open>old\<close> Python puts \<open>new\<close> before every character
  and at the end.
\<close>

function str_replace :: "string \<Rightarrow> string \<Rightarrow> string \<Rightarrow> string" where
  "str_replace s old new =
     (if old = [] then new @ concat (map (\<lambda>c. c # new) s)
      else if s = [] then []
      else if startswith s old then new @ str_replace (drop (length old) s) old new
      else hd s # str_replace (tl s) old new)"
  by pat_completeness auto
termination
  by (relation "measure (\<lambda>(s, old, new). length s)") auto

declare str_replace.simps [simp del]

text \<open>
  \<^verbatim>\<open>s.strip()\<close> removes leading and trailing whitespace; below code point 256 the
  whitespace characters of Python are 9 to 13, 28 to 32, 133 and 160.
\<close>

definition is_space :: "char \<Rightarrow> bool" where
  "is_space c = ((of_char c :: nat) \<in> {9, 10, 11, 12, 13, 28, 29, 30, 31, 32, 133, 160})"

definition str_strip :: "string \<Rightarrow> string" where
  "str_strip s = rev (dropWhile is_space (rev (dropWhile is_space s)))"

text \<open>
  \<^verbatim>\<open>urllib.parse.quote(s)\<close> with its default safe set: letters, digits and
  \<^verbatim>\<open>_.-~/\<close> stay, every other character is UTF-8 encoded and each byte written as
  \<^verbatim>\<open>%XX\<close>.
\<close>

definition quote_safe :: "char \<Rightarrow> bool" where
  "quote_safe c =
     (c \<in> set ''ABCDEFGHIJKLMNOPQRSTUVWXYZabcdefghijklmnopqrstuvwxyz0123456789_.-~/'')"

definition hex_char :: "nat \<Rightarrow> char" where
  "hex_char d = ''0123456789ABCDEF'' ! d"

definition percent_byte :: "nat \<Rightarrow> string" where
  "percent_byte b = [CHR ''%'', hex_char (b div 16), hex_char (b mod 16)]"

definition utf8_bytes :: "char \<Rightarrow> nat list" where
  "utf8_bytes c = (let n = (of_char c :: nat) in
     if n < 128 then [n] else [192 + n div 64, 128 + n mod 64])"

definition quote :: "string \<Rightarrow> string" where
  "quote s = concat (map (\<lambda>c. if quote_safe c then [c]
                               else concat (map percent_byte (utf8_bytes c))) s)"

text \<open>\<^verbatim>\<open>os.path.join(a, b)\<close> for POSIX paths.\<close>

definition os_path_join :: "string \<Rightarrow> string \<Rightarrow> string" where
  "os_path_join a b =
     (if startswith b ''/'' then b
      else if a = [] \<or> last a = CHR ''/'' then a @ b
      else a @ ''/'' @ b)"

section \<open>Double-precision arithmetic\<close>

text \<open>
  \<^verbatim>\<open>time.time()\<close> and \<^verbatim>\<open>os.path.getmtime\<close> return IEEE doubles, and \<^verbatim>\<open>now - file_mod_time\<close>
  is the subtraction of doubles: the exact difference rounded to the nearest double, ties to
  the even significand. A double is held as the real number it denotes; \<open>round_double\<close>
  rounds a real to 53 significant bits, with the fixed spacing \<open>2 powi (- 1074)\<close> below
  \<open>2 powi (- 1022)\<close>. Overflow to infinity is left out: timestamps are far from it.
\<close>

definition round_half_even :: "real \<Rightarrow> int" where
  "round_half_even m =
     (let f = \<lfloor>m\<rfloor>; r = m - of_int f in
      if r < 1 / 2 then f else if 1 / 2 < r then f + 1 else if even f then f else f + 1)"

text \<open>For \<open>x > 0\<close>, the exponent \<open>e\<close> with \<open>2 powi e \<le> x < 2 powi (e + 1)\<close>.\<close>

definition ilog2 :: "real \<Rightarrow> int" where
  "ilog2 x = (if 1 \<le> x then bitlen \<lfloor>x\<rfloor> - 1 else - bitlen (\<lceil>1 / x\<rceil> - 1))"

definition round_double :: "real \<Rightarrow> real" where
  "round_double x =
     (if x = 0 then 0
      else (let a = \<bar>x\<bar>; e = max (ilog2 a) (- 1022); ulp = 2 powi (e - 52)
            in sgn x * (of_int (round_half_even (a / ulp)) * ulp)))"

text \<open>\<^verbatim>\<open>a - b\<close> on doubles.\<close>

definition float_sub :: "real \<Rightarrow> real \<Rightarrow> real" where
  "float_sub a b = round_double (a - b)"

section \<open>The world: file system, network, and the record of what was done\<close>

text \<open>
  Every call that leaves the process is written to a trace, so that "no network call" and
  "no cache access" are statements about the trace.
\<close>

datatype io_op =
    OsIsdir string
  | OsListdir string
  | OsIsfile string
  | OsExists string
  | OsGetmtime string
  | OsGetsize string
  | OsRemove string
  | OpenWrite string
  | UrlOpen string

datatype file_kind = RegularFile | Directory

text \<open>
  A directory entry: what \<^verbatim>\<open>os.path.isfile\<close>, \<^verbatim>\<open>os.path.getmtime\<close> and
  \<^verbatim>\<open>os.path.getsize\<close> report. Times are seconds since the epoch:
  doubles, held as the reals they denote.
\<close>

record file_entry =
  kind :: file_kind
  mtime :: real
  fsize :: nat

text \<open>
  The file system is a table from absolute paths to entries; its order stands for the
  order in which \<^verbatim>\<open>os.listdir\<close> happens to return names.
\<close>

record world =
  files :: "(string \<times> file_entry) list"
  trace :: "io_op list"

text \<open>One JSON document of a search response, as \<^verbatim>\<open>doc.get\<close> reads it: a field that is
  missing reads as \<^verbatim>\<open>None\<close>, a missing list as the empty list; \<open>d_title\<close> keeps the
  difference, since a missing title has its own default.\<close>

record doc =
  d_key :: pyval
  d_title :: "pyval option"
  d_author_name :: "pyval list"
  d_cover_i :: pyval
  d_cover_edition_key :: pyval
  d_first_publish_year :: pyval
  d_isbn :: "pyval list"

datatype search_response = SearchFailed | NoDocs | Docs "doc list"

text \<open>
  The environment the plugin runs in. \<open>faults\<close> says which file-system calls raise
  \<^verbatim>\<open>OSError\<close> for a reason outside the table (permissions, a file in use, a file that
  vanished between two calls). \<open>fetch\<close> is the cover server: given what was done so far and
  a URL, the body that \<^verbatim>\<open>urlopen(...).read()\<close> returns, or \<open>None\<close> when it raises.
  \<open>search\<close> is the catalog: the parsed JSON, or a failure of the request or of the parse.
  \<open>clock\<close> is what \<^verbatim>\<open>time.time()\<close> returns.
\<close>

record env =
  plugin_dir :: string
  clock :: real
  faults :: "io_op \<Rightarrow> bool"
  fetch :: "io_op list \<Rightarrow> string \<Rightarrow> nat list option"
  search :: "io_op list \<Rightarrow> string \<Rightarrow> search_response"

definition cache_dir :: "env \<Rightarrow> string" where
  "cache_dir E = os_path_join (plugin_dir E) ''img_cache''"

definition app_icon :: "env \<Rightarrow> string" where
  "app_icon E = os_path_join (plugin_dir E) ''app.png''"

definition default_book_icon :: "env \<Rightarrow> string" where
  "default_book_icon E = os_path_join (plugin_dir E) ''book.png''"

definition log_op :: "io_op \<Rightarrow> world \<Rightarrow> world" where
  "log_op c w = w\<lparr>trace := trace w @ [c]\<rparr>"

text \<open>The URLs requested so far, oldest first.\<close>

fun net_calls :: "io_op list \<Rightarrow> string list" where
  "net_calls [] = []"
| "net_calls (UrlOpen u # t) = u # net_calls t"
| "net_calls (c # t) = net_calls t"

subsection \<open>File-system calls\<close>

text \<open>\<^verbatim>\<open>os.path.isdir\<close>, \<^verbatim>\<open>os.path.isfile\<close> and \<^verbatim>\<open>os.path.exists\<close> never raise.\<close>

definition os_path_isdir :: "string \<Rightarrow> world \<Rightarrow> bool \<times> world" where
  "os_path_isdir p w =
     ((case map_of (files w) p of None \<Rightarrow> False | Some e \<Rightarrow> kind e = Directory),
      log_op (OsIsdir p) w)"

definition os_path_isfile :: "string \<Rightarrow> world \<Rightarrow> bool \<times> world" where
  "os_path_isfile p w =
     ((case map_of (files w) p of None \<Rightarrow> False | Some e \<Rightarrow> kind e = RegularFile),
      log_op (OsIsfile p) w)"

definition os_path_exists :: "string \<Rightarrow> world \<Rightarrow> bool \<times> world" where
  "os_path_exists p w = (map_of (files w) p \<noteq> None, log_op (OsExists p) w)"

text \<open>The remaining calls return \<open>None\<close> when they raise.\<close>

definition os_path_getmtime :: "env \<Rightarrow> string \<Rightarrow> world \<Rightarrow> real option \<times> world" where
  "os_path_getmtime E p w =
     ((if faults E (OsGetmtime p) then None else map_option mtime (map_of (files w) p)),
      log_op (OsGetmtime p) w)"

definition os_path_getsize :: "env \<Rightarrow> string \<Rightarrow> world \<Rightarrow> nat option \<times> world" where
  "os_path_getsize E p w =
     ((if faults E (OsGetsize p) then None else map_option fsize (map_of (files w) p)),
      log_op (OsGetsize p) w)"

text \<open>\<^verbatim>\<open>os.remove\<close> raises on a missing path and on a directory.\<close>

definition os_remove :: "env \<Rightarrow> string \<Rightarrow> world \<Rightarrow> bool \<times> world" where
  "os_remove E p w =
     (let w1 = log_op (OsRemove p) w in
      if faults E (OsRemove p) then (False, w1)
      else (case map_of (files w) p of
              None \<Rightarrow> (False, w1)
            | Some e \<Rightarrow>
                if kind e = RegularFile
                then (True, w1\<lparr>files := AList.delete p (files w)\<rparr>)
                else (False, w1)))"

text \<open>The names in directory \<open>d\<close>: the paths that are \<open>d\<close>, a separator and one more
  component.\<close>

definition dir_prefix :: "string \<Rightarrow> string" where
  "dir_prefix d = (if d = [] \<or> last d = CHR ''/'' then d else d @ ''/'')"

definition child_name :: "string \<Rightarrow> string \<Rightarrow> string option" where
  "child_name d p =
     (let pre = dir_prefix d; n = drop (length pre) p in
      if take (length pre) p = pre \<and> n \<noteq> [] \<and> CHR ''/'' \<notin> set n then Some n else None)"

definition os_listdir :: "env \<Rightarrow> string \<Rightarrow> world \<Rightarrow> string list option \<times> world" where
  "os_listdir E d w =
     ((if faults E (OsListdir d) then None
       else (case map_of (files w) d of
               None \<Rightarrow> None
             | Some e \<Rightarrow>
                 if kind e = Directory
                 then Some (List.map_filter (child_name d) (map fst (files w)))
                 else None)),
      log_op (OsListdir d) w)"

text \<open>
  \<^verbatim>\<open>with open(path, 'wb') as f: f.write(content)\<close>: raises on a directory; otherwise the
  path holds a regular file of \<open>length content\<close> bytes, modified now. Only the size of the
  content is kept. A missing parent directory counts among the faults; a write that fails
  after the file was opened is not modelled.
\<close>

definition open_write :: "env \<Rightarrow> string \<Rightarrow> nat list \<Rightarrow> world \<Rightarrow> bool \<times> world" where
  "open_write E p content w =
     (let w1 = log_op (OpenWrite p) w in
      if faults E (OpenWrite p) then (False, w1)
      else if (case map_of (files w) p of None \<Rightarrow> False | Some e \<Rightarrow> kind e = Directory)
      then (False, w1)
      else (True, w1\<lparr>files := AList.update p
              \<lparr>kind = RegularFile, mtime = clock E, fsize = length content\<rparr> (files w)\<rparr>))"

text \<open>\<^verbatim>\<open>urllib.request.urlopen(req, timeout=5).read()\<close> on a cover URL.\<close>

definition urlopen_read :: "env \<Rightarrow> string \<Rightarrow> world \<Rightarrow> nat list option \<times> world" where
  "urlopen_read E url w = (fetch E (trace w) url, log_op (UrlOpen url) w)"

section \<open>The plugin\<close>

text \<open>
  Writing to the debug log (\<^verbatim>\<open>log_debug\<close>) swallows its own failures and returns nothing;
  it is left out. The sweep that \<^verbatim>\<open>__init__\<close> starts on a thread is modelled as one
  call of \<open>cleanup_image_cache\<close> on the world as it is at that moment.
\<close>

subsection \<open>\<^verbatim>\<open>cleanup_image_cache\<close>\<close>

definition age_limit_seconds :: real where
  "age_limit_seconds = 3 * 24 * 60 * 60"

text \<open>
  The \<^verbatim>\<open>for\<close> loop over the listing. The Boolean is \<open>False\<close> when a call raised: the
  exception leaves the loop, which is inside the \<^verbatim>\<open>try\<close>.
\<close>

fun sweep :: "env \<Rightarrow> real \<Rightarrow> string list \<Rightarrow> world \<Rightarrow> bool \<times> world" where
  "sweep E now [] w = (True, w)"
| "sweep E now (filename # rest) w =
     (let file_path = os_path_join (cache_dir E) filename in
      case os_path_isfile file_path w of
        (False, w1) \<Rightarrow> sweep E now rest w1
      | (True, w1) \<Rightarrow>
          (case os_path_getmtime E file_path w1 of
             (None, w2) \<Rightarrow> (False, w2)
           | (Some file_mod_time, w2) \<Rightarrow>
               if float_sub now file_mod_time > age_limit_seconds
               then (case os_remove E file_path w2 of
                       (False, w3) \<Rightarrow> (False, w3)
                     | (True, w3) \<Rightarrow> sweep E now rest w3)
               else sweep E now rest w2))"

definition cleanup_image_cache :: "env \<Rightarrow> world \<Rightarrow> world" where
  "cleanup_image_cache E w =
     (case os_path_isdir (cache_dir E) w of
        (False, w1) \<Rightarrow> w1
      | (True, w1) \<Rightarrow>
          (let now = clock E in
           case os_listdir E (cache_dir E) w1 of
             (None, w2) \<Rightarrow> w2
           | (Some names, w2) \<Rightarrow> snd (sweep E now names w2)))"

subsection \<open>\<^verbatim>\<open>search_openlibrary_api\<close>\<close>

record book_info =
  b_key :: pyval
  b_title :: pyval
  b_author_name :: pyval
  b_cover_id :: pyval
  b_first_publish_year :: pyval
  b_isbn :: pyval

definition book_of_doc :: "doc \<Rightarrow> book_info" where
  "book_of_doc d =
     (let cover_id = py_or (d_cover_i d) (d_cover_edition_key d);
          cover_id = (if \<not> truthy cover_id \<and> d_isbn d \<noteq> []
                      then PStr (''isbn_'' @ py_str (hd (d_isbn d)))
                      else cover_id)
      in \<lparr>b_key = d_key d,
          b_title = (case d_title d of None \<Rightarrow> PStr ''Unknown Title'' | Some t \<Rightarrow> t),
          b_author_name = (if d_author_name d \<noteq> [] then hd (d_author_name d)
                           else PStr ''Unknown Author''),
          b_cover_id = cover_id,
          b_first_publish_year = d_first_publish_year d,
          b_isbn = (if d_isbn d \<noteq> [] then hd (d_isbn d) else PNone)\<rparr>)"

definition search_openlibrary_api :: "env \<Rightarrow> string \<Rightarrow> world \<Rightarrow> book_info list \<times> world" where
  "search_openlibrary_api E search_term w =
     (let search_term = str_strip search_term in
      if search_term = [] then ([], w)
      else
        (let encoded_term = quote search_term;
             api_url = ''https://openlibrary.org/search.json?title='' @ encoded_term @ ''&limit=10'';
             w1 = log_op (UrlOpen api_url) w
         in case search E (trace w) api_url of
              SearchFailed \<Rightarrow> ([], w1)
            | NoDocs \<Rightarrow> ([], w1)
            | Docs docs \<Rightarrow> (take 5 (map book_of_doc docs), w1)))"

subsection \<open>\<^verbatim>\<open>download_cover\<close>\<close>

definition urls_to_try :: "pyval \<Rightarrow> pyval \<Rightarrow> string list" where
  "urls_to_try cover_id isbn =
     (if truthy cover_id \<and> \<not> startswith (py_str cover_id) ''isbn_''
      then [''https://covers.openlibrary.org/b/id/'' @ py_str cover_id @ ''-M.jpg'',
            ''https://covers.openlibrary.org/b/id/'' @ py_str cover_id @ ''-L.jpg'']
      else [])
     @ (if truthy isbn
        then [''https://covers.openlibrary.org/b/isbn/'' @ py_str isbn @ ''-M.jpg'']
        else [])
     @ (if truthy cover_id \<and> startswith (py_str cover_id) ''isbn_''
        then [''https://covers.openlibrary.org/b/isbn/''
                @ str_replace (py_str cover_id) ''isbn_'' [] @ ''-M.jpg'']
        else [])"

text \<open>
  The \<^verbatim>\<open>for url in urls_to_try\<close> loop: a request that raises, a body of at most 1000
  bytes and a failed write all go on to the next URL.
\<close>

fun try_urls :: "env \<Rightarrow> string \<Rightarrow> string list \<Rightarrow> world \<Rightarrow> bool \<times> world" where
  "try_urls E save_path [] w = (False, w)"
| "try_urls E save_path (url # urls) w =
     (case urlopen_read E url w of
        (None, w1) \<Rightarrow> try_urls E save_path urls w1
      | (Some content, w1) \<Rightarrow>
          if length content > 1000
          then (case open_write E save_path content w1 of
                  (True, w2) \<Rightarrow> (True, w2)
                | (False, w2) \<Rightarrow> try_urls E save_path urls w2)
          else try_urls E save_path urls w1)"

definition download_cover :: "env \<Rightarrow> pyval \<Rightarrow> string \<Rightarrow> pyval \<Rightarrow> world \<Rightarrow> bool \<times> world" where
  "download_cover E cover_id save_path isbn w =
     try_urls E save_path (urls_to_try cover_id isbn) w"

subsection \<open>\<^verbatim>\<open>get_cover_image\<close>\<close>

definition cache_name :: "pyval \<Rightarrow> pyval \<Rightarrow> string" where
  "cache_name cover_id isbn = str_replace (py_str (py_or cover_id isbn)) ''/'' ''_''"

definition cached_cover_path :: "env \<Rightarrow> pyval \<Rightarrow> pyval \<Rightarrow> string" where
  "cached_cover_path E cover_id isbn =
     os_path_join (cache_dir E) (cache_name cover_id isbn @ ''.jpg'')"

text \<open>
  The lookup of the cached file: \<open>True\<close> when the function returns the cached path at this
  point. The bare \<^verbatim>\<open>except: pass\<close> turns a failing \<^verbatim>\<open>getsize\<close> or \<^verbatim>\<open>remove\<close> into a
  miss.
\<close>

definition lookup_cached :: "env \<Rightarrow> string \<Rightarrow> world \<Rightarrow> bool \<times> world" where
  "lookup_cached E path w =
     (case os_path_exists path w of
        (False, w1) \<Rightarrow> (False, w1)
      | (True, w1) \<Rightarrow>
          (case os_path_getsize E path w1 of
             (None, w2) \<Rightarrow> (False, w2)
           | (Some n, w2) \<Rightarrow>
               if n > 1000 then (True, w2)
               else (False, snd (os_remove E path w2))))"

definition get_cover_image :: "env \<Rightarrow> pyval \<Rightarrow> pyval \<Rightarrow> world \<Rightarrow> string \<times> world" where
  "get_cover_image E cover_id isbn w =
     (if \<not> truthy cover_id \<and> \<not> truthy isbn then (default_book_icon E, w)
      else
        (let path = cached_cover_path E cover_id isbn in
         case lookup_cached E path w of
           (True, w1) \<Rightarrow> (path, w1)
         | (False, w1) \<Rightarrow>
             (case download_cover E cover_id path isbn w1 of
                (True, w2) \<Rightarrow> (path, w2)
              | (False, w2) \<Rightarrow> (default_book_icon E, w2))))"

subsection \<open>\<^verbatim>\<open>process_book_data\<close> and \<^verbatim>\<open>query\<close>\<close>

record result_item =
  Title :: pyval
  SubTitle :: string
  IcoPath :: string
  JsonRPCAction :: "(string \<times> pyval list) option"

definition process_book_data :: "env \<Rightarrow> book_info \<Rightarrow> world \<Rightarrow> result_item \<times> world" where
  "process_book_data E book_data w =
     (case get_cover_image E (b_cover_id book_data) (b_isbn book_data) w of
        (cover_path, w1) \<Rightarrow>
          (let subtitle = ''by '' @ py_str (b_author_name book_data);
               subtitle = (if truthy (b_first_publish_year book_data)
                           then subtitle @ '' ('' @ py_str (b_first_publish_year book_data) @ '')''
                           else subtitle)
           in (\<lparr>Title = b_title book_data,
                SubTitle = subtitle,
                IcoPath = cover_path,
                JsonRPCAction = Some (''open_openlibrary_page'', [b_key book_data])\<rparr>, w1)))"

fun process_all :: "env \<Rightarrow> book_info list \<Rightarrow> world \<Rightarrow> result_item list \<times> world" where
  "process_all E [] w = ([], w)"
| "process_all E (book_data # rest) w =
     (case process_book_data E book_data w of
        (result, w1) \<Rightarrow>
          (case process_all E rest w1 of
             (results, w2) \<Rightarrow> (result # results, w2)))"

definition start_item :: "env \<Rightarrow> result_item" where
  "start_item E =
     \<lparr>Title = PStr ''OpenLibrary Book Search'',
      SubTitle = ''Start typing a book title to search...'',
      IcoPath = app_icon E,
      JsonRPCAction = None\<rparr>"

definition no_books_item :: "env \<Rightarrow> string \<Rightarrow> result_item" where
  "no_books_item E search_term =
     \<lparr>Title = PStr (''No books found for '' @ [CHR 0x27] @ search_term @ [CHR 0x27]),
      SubTitle = ''Try a different search term'',
      IcoPath = app_icon E,
      JsonRPCAction = None\<rparr>"

definition query :: "env \<Rightarrow> string \<Rightarrow> world \<Rightarrow> result_item list \<times> world" where
  "query E search_term w =
     (if search_term = [] then ([start_item E], w)
      else
        (case search_openlibrary_api E search_term w of
           (api_results, w1) \<Rightarrow>
             (case (if api_results \<noteq> [] then process_all E api_results w1 else ([], w1)) of
                (results, w2) \<Rightarrow>
                  (if results = [] then [no_books_item E search_term] else results, w2))))"

section \<open>Notions used to state the properties\<close>

text \<open>The substitution the specification asks of a cache key: each path separator
  becomes an underscore, every other character stays.\<close>

definition subst_sep :: "char \<Rightarrow> char" where
  "subst_sep c = (if c = CHR ''/'' then CHR ''_'' else c)"


text \<open>A regular file whose age at time \<open>now\<close> is above the limit.\<close>

definition expired :: "real \<Rightarrow> file_entry \<Rightarrow> bool" where
  "expired now e = (kind e = RegularFile \<and> float_sub now (mtime e) > age_limit_seconds)"

text \<open>The names in the cache directory, in the order \<open>os_listdir\<close> returns them.\<close>

definition cache_listing :: "env \<Rightarrow> world \<Rightarrow> string list" where
  "cache_listing E w = List.map_filter (child_name (cache_dir E)) (map fst (files w))"

text \<open>
  What it means for an entry of the URL list to yield a cover. \<open>writable\<close>:
  \<^verbatim>\<open>open(save_path, 'wb')\<close> does not raise. \<open>yields\<close>: the request returns more than 1000
  bytes and they can be written. \<open>after_miss\<close>: the trace after a request that did not
  yield. \<open>trace_before\<close>: the trace before entry \<open>j\<close> of the list when no earlier entry
  yielded.
\<close>

definition writable :: "env \<Rightarrow> string \<Rightarrow> world \<Rightarrow> bool" where
  "writable E p w =
     (\<not> faults E (OpenWrite p)
      \<and> (case map_of (files w) p of None \<Rightarrow> True | Some e \<Rightarrow> kind e \<noteq> Directory))"

definition yields :: "env \<Rightarrow> string \<Rightarrow> world \<Rightarrow> io_op list \<Rightarrow> string \<Rightarrow> bool" where
  "yields E p w t u =
     (case fetch E t u of None \<Rightarrow> False | Some c \<Rightarrow> 1000 < length c \<and> writable E p w)"

definition after_miss :: "env \<Rightarrow> string \<Rightarrow> io_op list \<Rightarrow> string \<Rightarrow> io_op list" where
  "after_miss E p t u =
     t @ [UrlOpen u]
       @ (case fetch E t u of None \<Rightarrow> [] | Some c \<Rightarrow> if 1000 < length c then [OpenWrite p] else [])"

definition trace_before :: "env \<Rightarrow> string \<Rightarrow> io_op list \<Rightarrow> string list \<Rightarrow> nat \<Rightarrow> io_op list" where
  "trace_before E p t us j = foldl (after_miss E p) t (take j us)"

section \<open>Example environments\<close>

text \<open>A plugin directory, no faults, and a network that is down.\<close>

definition env0 :: env where
  "env0 = \<lparr>plugin_dir = ''/plug'', clock = 1000000, faults = (\<lambda>c. False),
           fetch = (\<lambda>t u. None), search = (\<lambda>t u. SearchFailed)\<rparr>"

text \<open>A file system that holds the cache directory and nothing else.\<close>

definition world0 :: world where
  "world0 = \<lparr>files = [(''/plug/img_cache'', \<lparr>kind = Directory, mtime = 0, fsize = 4096\<rparr>)],
             trace = []\<rparr>"

text \<open>The same with a cover server that answers every request with 1001 bytes.\<close>

definition env1 :: env where
  "env1 = \<lparr>plugin_dir = ''/plug'', clock = 1000000, faults = (\<lambda>c. False),
           fetch = (\<lambda>t u. Some (replicate 1001 0)), search = (\<lambda>t u. SearchFailed)\<rparr>"

text \<open>A cache that holds an undersized file and a valid one.\<close>

definition world1 :: world where
  "world1 = \<lparr>files = [(''/plug/img_cache'', \<lparr>kind = Directory, mtime = 0, fsize = 4096\<rparr>),
                      (''/plug/img_cache/small.jpg'', \<lparr>kind = RegularFile, mtime = 900000, fsize = 500\<rparr>),
                      (''/plug/img_cache/big.jpg'', \<lparr>kind = RegularFile, mtime = 900000, fsize = 2000\<rparr>)],
             trace = []\<rparr>"

text \<open>An environment in which one cache file cannot be removed.\<close>

definition env2 :: env where
  "env2 = \<lparr>plugin_dir = ''/plug'', clock = 1000000,
           faults = (\<lambda>c. c = OsRemove ''/plug/img_cache/a.jpg''),
           fetch = (\<lambda>t u. None), search = (\<lambda>t u. SearchFailed)\<rparr>"

text \<open>A cache with three files that are four days old and one that is two days old.\<close>

definition world2 :: world where
  "world2 = \<lparr>files = [(''/plug/img_cache'', \<lparr>kind = Directory, mtime = 0, fsize = 4096\<rparr>),
                      (''/plug/img_cache/z.jpg'', \<lparr>kind = RegularFile, mtime = 654400, fsize = 2000\<rparr>),
                      (''/plug/img_cache/a.jpg'', \<lparr>kind = RegularFile, mtime = 654400, fsize = 2000\<rparr>),
                      (''/plug/img_cache/b.jpg'', \<lparr>kind = RegularFile, mtime = 654400, fsize = 2000\<rparr>),
                      (''/plug/img_cache/new.jpg'', \<lparr>kind = RegularFile, mtime = 827200, fsize = 2000\<rparr>)],
             trace = []\<rparr>"


text \<open>A clock three days and \<open>69 / 2 ^ 35\<close> seconds after the epoch, and a cache file
  modified at the double nearest to two nanoseconds after the epoch.\<close>

definition now9 :: real where
  "now9 = 259200 + 69 / 2 ^ 35"

definition mtime9 :: real where
  "mtime9 = 4835703278458517 / 2 ^ 81"

definition env9 :: env where
  "env9 = \<lparr>plugin_dir = ''/plug'', clock = now9, faults = (\<lambda>c. False),
           fetch = (\<lambda>t u. None), search = (\<lambda>t u. SearchFailed)\<rparr>"

definition world9 :: world where
  "world9 = \<lparr>files = [(''/plug/img_cache'', \<lparr>kind = Directory, mtime = 0, fsize = 4096\<rparr>),
                      (''/plug/img_cache/old.jpg'',
                       \<lparr>kind = RegularFile, mtime = mtime9, fsize = 2000\<rparr>)],
             trace = []\<rparr>"

section \<open>The cache key\<close>

lemma str_replace_slash: "str_replace s ''/'' ''_'' = map subst_sep s"
proof (induction s)
  case Nil
  show ?case by (simp add: str_replace.simps)
next
  case (Cons c cs)
  show ?case
    using Cons.IH by (subst str_replace.simps) (simp add: startswith_def subst_sep_def)
qed

text \<open>
  C3. The cache key is the cover identifier when there is one and the ISBN otherwise,
  with every \<^verbatim>\<open>/\<close> replaced by an underscore and nothing else changed; it contains no
  \<^verbatim>\<open>/\<close>; and two records with the same effective identifier (\<^verbatim>\<open>cover_id or isbn\<close>) have
  the same key.
\<close>

theorem cache_key_deterministic:
  "(truthy cover_id \<longrightarrow> cache_name cover_id isbn = map subst_sep (py_str cover_id))
   \<and> (\<not> truthy cover_id \<longrightarrow> cache_name cover_id isbn = map subst_sep (py_str isbn))
   \<and> CHR ''/'' \<notin> set (cache_name cover_id isbn)
   \<and> (py_or cover_id isbn = py_or cover_id' isbn'
        \<longrightarrow> cache_name cover_id isbn = cache_name cover_id' isbn')"
  by (auto simp: cache_name_def str_replace_slash py_or_def subst_sep_def)

theorem cache_key_deterministic_witness:
  "truthy (PStr ''OL1/M'') \<and> cache_name (PStr ''OL1/M'') (PStr ''978'') = ''OL1_M''
   \<and> \<not> truthy (PInt 0) \<and> cache_name (PInt 0) (PStr ''97/8'') = ''97_8''
   \<and> py_or (PInt 0) (PStr ''97/8'') = py_or PNone (PStr ''97/8'')
   \<and> cache_name (PInt 0) (PStr ''97/8'') = cache_name PNone (PStr ''97/8'')"
  using cache_key_deterministic [of "PStr ''OL1/M''" "PStr ''978''" PNone PNone]
    cache_key_deterministic [of "PInt 0" "PStr ''97/8''" PNone "PStr ''97/8''"]
  by (auto simp: py_or_def subst_sep_def)

section \<open>Resolution without identifiers\<close>

text \<open>
  C7. For a record with neither a cover identifier nor an ISBN, \<open>get_cover_image\<close>
  returns the default icon and leaves the world as it was: the trace gains no entry, so
  there was no network request and no call on the cache, and no file changed.
\<close>

theorem no_hint_no_io:
  "\<not> truthy cover_id \<Longrightarrow> \<not> truthy isbn \<Longrightarrow>
     get_cover_image E cover_id isbn w = (default_book_icon E, w)"
  by (simp add: get_cover_image_def)

theorem no_hint_no_io_witness:
  "\<not> truthy PNone \<and> \<not> truthy (PStr [])
   \<and> get_cover_image env0 PNone (PStr []) world0 = (''/plug/book.png'', world0)"
  using no_hint_no_io [of PNone "PStr []" env0 world0]
  by (simp add: default_book_icon_def os_path_join_def startswith_def env0_def)

section \<open>The order of download attempts\<close>

lemma net_calls_append: "net_calls (a @ b) = net_calls a @ net_calls b"
  by (induction a rule: net_calls.induct) simp_all

lemma trace_log_op [simp]: "trace (log_op c w) = trace w @ [c]"
  by (simp add: log_op_def)

lemma files_log_op [simp]: "files (log_op c w) = files w"
  by (simp add: log_op_def)

lemma urlopen_read_world [simp]: "snd (urlopen_read E u w) = log_op (UrlOpen u) w"
  by (simp add: urlopen_read_def)

lemma open_write_trace [simp]: "trace (snd (open_write E p c w)) = trace w @ [OpenWrite p]"
  by (simp add: open_write_def Let_def)

lemma try_urls_attempts:
  "\<exists>k. k \<le> length urls
     \<and> net_calls (trace (snd (try_urls E p urls w))) = net_calls (trace w) @ take k urls
     \<and> (\<not> fst (try_urls E p urls w) \<longrightarrow> k = length urls)"
proof (induction urls arbitrary: w)
  case Nil
  show ?case by simp
next
  case (Cons url urls)
  obtain r w1 where f: "urlopen_read E url w = (r, w1)"
    by (cases "urlopen_read E url w")
  then have w1: "w1 = log_op (UrlOpen url) w"
    using urlopen_read_world [of E url w] by simp
  have step: "\<exists>k. k \<le> length (url # urls)
     \<and> net_calls (trace (snd (try_urls E p urls w'))) = net_calls (trace w) @ take k (url # urls)
     \<and> (\<not> fst (try_urls E p urls w') \<longrightarrow> k = length (url # urls))"
    if "net_calls (trace w') = net_calls (trace w) @ [url]" for w'
  proof -
    from Cons.IH [of w'] obtain k where k: "k \<le> length urls"
      "net_calls (trace (snd (try_urls E p urls w'))) = net_calls (trace w') @ take k urls"
      "\<not> fst (try_urls E p urls w') \<longrightarrow> k = length urls"
      by blast
    show ?thesis
      by (rule exI [of _ "Suc k"]) (use k that in simp)
  qed
  have n1: "net_calls (trace w1) = net_calls (trace w) @ [url]"
    by (simp add: w1 net_calls_append)
  show ?case
  proof (cases r)
    case None
    with f step [OF n1] show ?thesis by simp
  next
    case (Some content)
    show ?thesis
    proof (cases "length content > 1000")
      case False
      with f Some step [OF n1] show ?thesis by simp
    next
      case True
      obtain ok w2 where o: "open_write E p content w1 = (ok, w2)"
        by (cases "open_write E p content w1")
      then have n2: "net_calls (trace w2) = net_calls (trace w) @ [url]"
        using open_write_trace [of E p content w1] by (simp add: net_calls_append n1)
      show ?thesis
      proof (cases ok)
        case True
        have "try_urls E p (url # urls) w = (True, w2)"
          using f Some \<open>length content > 1000\<close> o True by simp
        then show ?thesis
          by (intro exI [of _ 1]) (simp add: n2)
      next
        case False
        with f Some \<open>length content > 1000\<close> o step [OF n2] show ?thesis by simp
      qed
    qed
  qed
qed

lemma download_cover_attempts:
  "\<exists>k. k \<le> length (urls_to_try cover_id isbn)
     \<and> net_calls (trace (snd (download_cover E cover_id p isbn w)))
         = net_calls (trace w) @ take k (urls_to_try cover_id isbn)
     \<and> (\<not> fst (download_cover E cover_id p isbn w) \<longrightarrow> k = length (urls_to_try cover_id isbn))"
  unfolding download_cover_def by (rule try_urls_attempts)

lemma digits10_hd: "digits10 n \<noteq> [] \<and> hd (digits10 n) \<in> set ''0123456789''"
proof (induction n rule: digits10.induct)
  case (1 n)
  show ?case
  proof (cases "n < 10")
    case True
    then have "n \<in> {0, 1, 2, 3, 4, 5, 6, 7, 8, 9}" by auto
    then show ?thesis
      by (subst digits10.simps, subst (2) digits10.simps) (auto simp: digit_char_def)
  next
    case False
    with 1 show ?thesis
      by (subst digits10.simps, subst (2) digits10.simps) simp
  qed
qed

lemma startswith_hd: "startswith s (c # p) \<Longrightarrow> hd s = c"
  by (cases s) (auto simp: startswith_def)

lemma str_int_not_isbn: "\<not> startswith (str_int n) ''isbn_''"
proof
  assume "startswith (str_int n) ''isbn_''"
  then have "hd (str_int n) = CHR ''i''"
    by (rule startswith_hd)
  moreover have "hd (str_int n) \<in> set ''-0123456789''"
    using digits10_hd [of "nat n"] digits10_hd [of "nat (- n)"] by (auto simp: str_int_def)
  ultimately show False by simp
qed

lemma os_path_exists_simps [simp]:
  "fst (os_path_exists p w) = (map_of (files w) p \<noteq> None)"
  "snd (os_path_exists p w) = log_op (OsExists p) w"
  by (simp_all add: os_path_exists_def)

lemma os_path_getsize_simps [simp]:
  "fst (os_path_getsize E p w)
     = (if faults E (OsGetsize p) then None else map_option fsize (map_of (files w) p))"
  "snd (os_path_getsize E p w) = log_op (OsGetsize p) w"
  by (simp_all add: os_path_getsize_def)

lemma os_remove_trace [simp]: "trace (snd (os_remove E p w)) = trace w @ [OsRemove p]"
  by (simp add: os_remove_def Let_def split: option.splits)

lemma lookup_cached_unfold:
  "lookup_cached E p w =
     (if map_of (files w) p = None then (False, log_op (OsExists p) w)
      else case fst (os_path_getsize E p (log_op (OsExists p) w)) of
             None \<Rightarrow> (False, log_op (OsGetsize p) (log_op (OsExists p) w))
           | Some n \<Rightarrow>
               if n > 1000 then (True, log_op (OsGetsize p) (log_op (OsExists p) w))
               else (False, snd (os_remove E p (log_op (OsGetsize p) (log_op (OsExists p) w)))))"
  by (cases "os_path_exists p w"; cases "os_path_getsize E p (log_op (OsExists p) w)")
     (use os_path_exists_simps [of p w] os_path_getsize_simps [of E p "log_op (OsExists p) w"]
       in \<open>auto simp: lookup_cached_def simp del: os_path_exists_simps os_path_getsize_simps
             split: option.splits\<close>)

lemma lookup_cached_net [simp]:
  "net_calls (trace (snd (lookup_cached E p w))) = net_calls (trace w)"
  by (simp add: lookup_cached_unfold net_calls_append split: option.splits)

lemma get_cover_image_hit:
  assumes "truthy cover_id \<or> truthy isbn"
    and "fst (lookup_cached E (cached_cover_path E cover_id isbn) w)"
  shows "get_cover_image E cover_id isbn w
     = (cached_cover_path E cover_id isbn,
        snd (lookup_cached E (cached_cover_path E cover_id isbn) w))"
  using assms
  by (cases "lookup_cached E (cached_cover_path E cover_id isbn) w")
     (auto simp: get_cover_image_def Let_def)

lemma get_cover_image_miss:
  assumes "truthy cover_id \<or> truthy isbn"
    and "\<not> fst (lookup_cached E (cached_cover_path E cover_id isbn) w)"
    and "w1 = snd (lookup_cached E (cached_cover_path E cover_id isbn) w)"
    and "r = download_cover E cover_id (cached_cover_path E cover_id isbn) isbn w1"
  shows "get_cover_image E cover_id isbn w
     = (if fst r then cached_cover_path E cover_id isbn else default_book_icon E, snd r)"
  using assms
  by (cases "lookup_cached E (cached_cover_path E cover_id isbn) w";
      cases "download_cover E cover_id (cached_cover_path E cover_id isbn) isbn w1")
     (auto simp: get_cover_image_def Let_def)

text \<open>
  C4. For a record with a numeric cover identifier \<open>n\<close> (not zero, which Python takes for
  absent) and an ISBN, the list of URLs is the medium-size URL of the identifier, its
  large-size URL, then the ISBN URL. \<open>download_cover\<close> and \<open>get_cover_image\<close> request an
  initial part of that list, in that order, and \<open>download_cover\<close> requests all three when
  none yields a cover.
\<close>

theorem url_priority:
  assumes "n \<noteq> 0" and "truthy isbn"
  defines "M \<equiv> ''https://covers.openlibrary.org/b/id/'' @ str_int n @ ''-M.jpg''"
    and "L \<equiv> ''https://covers.openlibrary.org/b/id/'' @ str_int n @ ''-L.jpg''"
    and "I \<equiv> ''https://covers.openlibrary.org/b/isbn/'' @ py_str isbn @ ''-M.jpg''"
  shows "urls_to_try (PInt n) isbn = [M, L, I]
    \<and> (\<exists>k. net_calls (trace (snd (download_cover E (PInt n) save_path isbn w)))
              = net_calls (trace w) @ take k [M, L, I])
    \<and> (\<not> fst (download_cover E (PInt n) save_path isbn w) \<longrightarrow>
          net_calls (trace (snd (download_cover E (PInt n) save_path isbn w)))
              = net_calls (trace w) @ [M, L, I])
    \<and> (\<exists>k. net_calls (trace (snd (get_cover_image E (PInt n) isbn w)))
              = net_calls (trace w) @ take k [M, L, I])"
proof -
  have u: "urls_to_try (PInt n) isbn = [M, L, I]"
    using assms(1,2) by (simp add: urls_to_try_def str_int_not_isbn M_def L_def I_def)
  obtain k where k: "net_calls (trace (snd (download_cover E (PInt n) save_path isbn w)))
         = net_calls (trace w) @ take k [M, L, I]"
     "\<not> fst (download_cover E (PInt n) save_path isbn w) \<longrightarrow> k = length [M, L, I]"
    using download_cover_attempts [of "PInt n" isbn E save_path w] unfolding u by blast
  define path where "path = cached_cover_path E (PInt n) isbn"
  have t: "truthy (PInt n) \<or> truthy isbn"
    using assms(1) by simp
  have g: "\<exists>k. net_calls (trace (snd (get_cover_image E (PInt n) isbn w)))
              = net_calls (trace w) @ take k [M, L, I]"
  proof (cases "fst (lookup_cached E path w)")
    case True
    then show ?thesis
      using get_cover_image_hit [OF t, of E w]
      by (intro exI [of _ 0]) (simp add: path_def)
  next
    case False
    define w1 where "w1 = snd (lookup_cached E path w)"
    obtain j where "net_calls (trace (snd (download_cover E (PInt n) path isbn w1)))
         = net_calls (trace w1) @ take j [M, L, I]"
      using download_cover_attempts [of "PInt n" isbn E path w1]
      unfolding u by blast
    then show ?thesis
      using get_cover_image_miss [OF t, of E w w1, OF _ _ refl] False
      by (intro exI [of _ j]) (simp add: w1_def path_def)
  qed
  from u k g show ?thesis by auto
qed

lemma try_urls_down [simp]:
  "fetch E = (\<lambda>t u. None) \<Longrightarrow> fst (try_urls E p urls w) = False"
  by (induction urls arbitrary: w) (simp_all add: urlopen_read_def)

theorem url_priority_witness:
  "(12345::int) \<noteq> 0 \<and> truthy (PStr ''9780131103627'')
   \<and> urls_to_try (PInt 12345) (PStr ''9780131103627'')
      = [''https://covers.openlibrary.org/b/id/12345-M.jpg'',
         ''https://covers.openlibrary.org/b/id/12345-L.jpg'',
         ''https://covers.openlibrary.org/b/isbn/9780131103627-M.jpg'']
   \<and> \<not> fst (download_cover env0 (PInt 12345) ''x'' (PStr ''9780131103627'') world0)
   \<and> net_calls (trace (snd (download_cover env0 (PInt 12345) ''x'' (PStr ''9780131103627'') world0)))
      = [''https://covers.openlibrary.org/b/id/12345-M.jpg'',
         ''https://covers.openlibrary.org/b/id/12345-L.jpg'',
         ''https://covers.openlibrary.org/b/isbn/9780131103627-M.jpg'']"
proof -
  have d: "\<not> fst (download_cover env0 (PInt 12345) ''x'' (PStr ''9780131103627'') world0)"
    by (simp add: download_cover_def env0_def)
  have s: "str_int 12345 = ''12345''"
    by (simp add: str_int_def digits10.simps digit_char_def)
  show ?thesis
    using d url_priority [of 12345 "PStr ''9780131103627''" env0 "''x''" world0]
    by (simp add: s world0_def)
qed


lemma writable_trace_upd [simp]: "writable E p (w\<lparr>trace := t'\<rparr>) = writable E p w"
  by (simp add: writable_def)

lemma yields_trace_upd [simp]: "yields E p (w\<lparr>trace := t'\<rparr>) t u = yields E p w t u"
  by (simp add: yields_def split: option.splits)

lemma trace_before_0 [simp]: "trace_before E p t us 0 = t"
  by (simp add: trace_before_def)

lemma trace_before_Suc [simp]:
  "trace_before E p t (u # us) (Suc j) = trace_before E p (after_miss E p t u) us j"
  by (simp add: trace_before_def)












section \<open>The cache lookup\<close>

lemma lookup_cached_hit_iff:
  "fst (lookup_cached E p w)
     \<longleftrightarrow> \<not> faults E (OsGetsize p) \<and> (\<exists>e. map_of (files w) p = Some e \<and> 1000 < fsize e)"
  by (auto simp: lookup_cached_unfold split: option.splits)

lemma lookup_cached_hit_world:
  "fst (lookup_cached E p w)
     \<Longrightarrow> snd (lookup_cached E p w) = log_op (OsGetsize p) (log_op (OsExists p) w)"
  by (auto simp: lookup_cached_unfold split: option.splits if_splits)

lemma os_remove_ok:
  "map_of (files w) p = Some e \<Longrightarrow> kind e = RegularFile \<Longrightarrow> \<not> faults E (OsRemove p)
     \<Longrightarrow> os_remove E p w = (True, (log_op (OsRemove p) w)\<lparr>files := AList.delete p (files w)\<rparr>)"
  by (simp add: os_remove_def Let_def)

lemma lookup_cached_purge:
  assumes "map_of (files w) p = Some e" "kind e = RegularFile" "fsize e \<le> 1000"
    "\<not> faults E (OsGetsize p)" "\<not> faults E (OsRemove p)"
  shows "\<not> fst (lookup_cached E p w)"
    and "map_of (files (snd (lookup_cached E p w))) q
           = (if q = p then None else map_of (files w) q)"
  using assms os_remove_ok [of "log_op (OsGetsize p) (log_op (OsExists p) w)" p e E]
  by (auto simp: lookup_cached_unfold delete_conv)

text \<open>
  C5. When the size of the file can be read, the lookup reports a hit exactly when the path
  exists and its size is above 1000 bytes, and a hit changes no file. A regular file of at
  most 1000 bytes whose removal does not fail is reported as a miss and is gone afterwards;
  every other path is as before.
\<close>

theorem lookup_valid_iff:
  "(\<not> faults E (OsGetsize path) \<longrightarrow>
      (fst (lookup_cached E path w)
         \<longleftrightarrow> (\<exists>e. map_of (files w) path = Some e \<and> 1000 < fsize e)))
   \<and> (fst (lookup_cached E path w) \<longrightarrow> files (snd (lookup_cached E path w)) = files w)
   \<and> (map_of (files w) path = Some e \<and> kind e = RegularFile \<and> fsize e \<le> 1000
        \<and> \<not> faults E (OsGetsize path) \<and> \<not> faults E (OsRemove path) \<longrightarrow>
      \<not> fst (lookup_cached E path w)
      \<and> map_of (files (snd (lookup_cached E path w))) path = None
      \<and> (\<forall>q. q \<noteq> path \<longrightarrow>
            map_of (files (snd (lookup_cached E path w))) q = map_of (files w) q))"
  using lookup_cached_purge [of w path e E]
  by (auto simp: lookup_cached_hit_iff lookup_cached_hit_world)

theorem lookup_valid_iff_witness:
  "\<not> faults env0 (OsGetsize ''/plug/img_cache/big.jpg'')
   \<and> map_of (files world1) ''/plug/img_cache/big.jpg''
        = Some \<lparr>kind = RegularFile, mtime = 900000, fsize = 2000\<rparr>
   \<and> fst (lookup_cached env0 ''/plug/img_cache/big.jpg'' world1)
   \<and> files (snd (lookup_cached env0 ''/plug/img_cache/big.jpg'' world1)) = files world1
   \<and> map_of (files world1) ''/plug/img_cache/small.jpg''
        = Some \<lparr>kind = RegularFile, mtime = 900000, fsize = 500\<rparr>
   \<and> \<not> faults env0 (OsGetsize ''/plug/img_cache/small.jpg'')
   \<and> \<not> faults env0 (OsRemove ''/plug/img_cache/small.jpg'')
   \<and> \<not> fst (lookup_cached env0 ''/plug/img_cache/small.jpg'' world1)
   \<and> map_of (files (snd (lookup_cached env0 ''/plug/img_cache/small.jpg'' world1)))
        ''/plug/img_cache/small.jpg'' = None
   \<and> map_of (files (snd (lookup_cached env0 ''/plug/img_cache/small.jpg'' world1)))
        ''/plug/img_cache/big.jpg'' = map_of (files world1) ''/plug/img_cache/big.jpg''"
  using lookup_valid_iff [of env0 "''/plug/img_cache/big.jpg''" world1
      "\<lparr>kind = RegularFile, mtime = 900000, fsize = 2000\<rparr>"]
    lookup_valid_iff [of env0 "''/plug/img_cache/small.jpg''" world1
      "\<lparr>kind = RegularFile, mtime = 900000, fsize = 500\<rparr>"]
  by (simp add: env0_def world1_def)

section \<open>Resolution with a warm cache\<close>

lemma open_write_ok_file:
  "fst (open_write E p content w)
     \<Longrightarrow> map_of (files (snd (open_write E p content w))) p
           = Some \<lparr>kind = RegularFile, mtime = clock E, fsize = length content\<rparr>"
  by (auto simp: open_write_def Let_def update_conv' split: if_splits)

lemma try_urls_ok_file:
  "fst (try_urls E p urls w)
     \<Longrightarrow> \<exists>e. map_of (files (snd (try_urls E p urls w))) p = Some e \<and> 1000 < fsize e"
proof (induction urls arbitrary: w)
  case Nil
  then show ?case by simp
next
  case (Cons url urls)
  obtain r w1 where f: "urlopen_read E url w = (r, w1)"
    by (cases "urlopen_read E url w")
  show ?case
  proof (cases r)
    case None
    with f Cons.prems Cons.IH [of w1] show ?thesis by simp
  next
    case (Some content)
    show ?thesis
    proof (cases "length content > 1000")
      case False
      with f Some Cons.prems Cons.IH [of w1] show ?thesis by simp
    next
      case True
      obtain ok w2 where o: "open_write E p content w1 = (ok, w2)"
        by (cases "open_write E p content w1")
      show ?thesis
      proof (cases ok)
        case True
        then have "map_of (files w2) p
            = Some \<lparr>kind = RegularFile, mtime = clock E, fsize = length content\<rparr>"
          using open_write_ok_file [of E p content w1] o by simp
        moreover have "try_urls E p (url # urls) w = (True, w2)"
          using f Some \<open>length content > 1000\<close> o True by simp
        ultimately show ?thesis
          using \<open>length content > 1000\<close> by simp
      next
        case False
        with f Some \<open>length content > 1000\<close> o Cons.prems Cons.IH [of w2] show ?thesis
          by simp
      qed
    qed
  qed
qed

lemma get_cover_image_cached_file:
  assumes "get_cover_image E cover_id isbn w = (p, w1)" and "p \<noteq> default_book_icon E"
  shows "(truthy cover_id \<or> truthy isbn) \<and> p = cached_cover_path E cover_id isbn
     \<and> (\<exists>e. map_of (files w1) p = Some e \<and> 1000 < fsize e)"
proof -
  define path where "path = cached_cover_path E cover_id isbn"
  have t: "truthy cover_id \<or> truthy isbn"
    using assms by (auto simp: get_cover_image_def split: if_splits)
  show ?thesis
  proof (cases "fst (lookup_cached E path w)")
    case True
    then have "get_cover_image E cover_id isbn w = (path, snd (lookup_cached E path w))"
      using get_cover_image_hit [OF t, of E w] by (simp add: path_def)
    with assms(1) have "p = path" "w1 = snd (lookup_cached E path w)" by auto
    moreover have "\<exists>e. map_of (files w) path = Some e \<and> 1000 < fsize e"
      using True by (simp add: lookup_cached_hit_iff)
    ultimately show ?thesis
      using t True by (simp add: lookup_cached_hit_world path_def)
  next
    case False
    define w0 where "w0 = snd (lookup_cached E path w)"
    define r where "r = download_cover E cover_id path isbn w0"
    have g: "get_cover_image E cover_id isbn w
        = (if fst r then path else default_book_icon E, snd r)"
      using get_cover_image_miss [OF t, of E w w0 r] False
      by (simp add: path_def w0_def r_def)
    with assms have ok: "fst r" and "p = path" "w1 = snd r"
      by (auto split: if_splits)
    moreover have "\<exists>e. map_of (files (snd r)) path = Some e \<and> 1000 < fsize e"
      using ok try_urls_ok_file [of E path "urls_to_try cover_id isbn" w0]
      by (simp add: r_def download_cover_def)
    ultimately show ?thesis
      using t by (simp add: path_def)
  qed
qed

text \<open>
  C6. After a call of \<open>get_cover_image\<close> that returned a cached file (not the default
  icon), a second call on the same record, in the world the first call left, returns the
  same path, makes no network request and changes no file, provided the size of the cached
  file can be read.
\<close>

theorem warm_cache_idempotent:
  assumes "get_cover_image E cover_id isbn w = (p, w1)"
    and "p \<noteq> default_book_icon E"
    and "\<not> faults E (OsGetsize p)"
  shows "fst (get_cover_image E cover_id isbn w1) = p
    \<and> net_calls (trace (snd (get_cover_image E cover_id isbn w1))) = net_calls (trace w1)
    \<and> files (snd (get_cover_image E cover_id isbn w1)) = files w1"
proof -
  from get_cover_image_cached_file [OF assms(1,2)]
  have t: "truthy cover_id \<or> truthy isbn"
    and p: "p = cached_cover_path E cover_id isbn"
    and e: "\<exists>e. map_of (files w1) p = Some e \<and> 1000 < fsize e"
    by blast+
  have hit: "fst (lookup_cached E (cached_cover_path E cover_id isbn) w1)"
    using e assms(3) by (simp add: lookup_cached_hit_iff p)
  show ?thesis
    using get_cover_image_hit [OF t hit] lookup_cached_hit_world [OF hit]
    by (simp add: p net_calls_append)
qed

lemma example_cached_path: "cached_cover_path env1 (PInt 7) PNone = ''/plug/img_cache/7.jpg''"
  by (simp add: cached_cover_path_def cache_name_def py_or_def str_replace_slash
        subst_sep_def cache_dir_def os_path_join_def startswith_def env1_def
        str_int_def digits10.simps digit_char_def)

lemma example_first_call:
  "fst (get_cover_image env1 (PInt 7) PNone world0) = ''/plug/img_cache/7.jpg''
   \<and> net_calls (trace (snd (get_cover_image env1 (PInt 7) PNone world0)))
       = [''https://covers.openlibrary.org/b/id/7-M.jpg'']"
proof -
  have miss: "\<not> fst (lookup_cached env1 ''/plug/img_cache/7.jpg'' world0)"
    by (simp add: lookup_cached_hit_iff world0_def)
  have u: "urls_to_try (PInt 7) PNone = [''https://covers.openlibrary.org/b/id/7-M.jpg'',
      ''https://covers.openlibrary.org/b/id/7-L.jpg'']"
    by (simp add: urls_to_try_def str_int_not_isbn) (simp add: str_int_def digits10.simps digit_char_def)
  define w1 where "w1 = snd (lookup_cached env1 ''/plug/img_cache/7.jpg'' world0)"
  have n: "net_calls (trace w1) = []"
    by (simp add: w1_def world0_def)
  have d: "fst (download_cover env1 (PInt 7) ''/plug/img_cache/7.jpg'' PNone w1)
    \<and> net_calls (trace (snd (download_cover env1 (PInt 7) ''/plug/img_cache/7.jpg'' PNone w1)))
       = [''https://covers.openlibrary.org/b/id/7-M.jpg'']"
    using n
    by (simp add: download_cover_def u urlopen_read_def open_write_def Let_def env1_def
        net_calls_append w1_def lookup_cached_unfold world0_def)
  show ?thesis
    using get_cover_image_miss [of "PInt 7" PNone env1 world0 w1, OF _ _ _ refl] miss d
    by (simp add: example_cached_path w1_def)
qed

theorem warm_cache_idempotent_witness:
  "fst (get_cover_image env1 (PInt 7) PNone world0) = ''/plug/img_cache/7.jpg''
   \<and> ''/plug/img_cache/7.jpg'' \<noteq> default_book_icon env1
   \<and> \<not> faults env1 (OsGetsize ''/plug/img_cache/7.jpg'')
   \<and> net_calls (trace (snd (get_cover_image env1 (PInt 7) PNone world0)))
       = [''https://covers.openlibrary.org/b/id/7-M.jpg'']
   \<and> fst (get_cover_image env1 (PInt 7) PNone
            (snd (get_cover_image env1 (PInt 7) PNone world0))) = ''/plug/img_cache/7.jpg''
   \<and> net_calls (trace (snd (get_cover_image env1 (PInt 7) PNone
            (snd (get_cover_image env1 (PInt 7) PNone world0)))))
       = [''https://covers.openlibrary.org/b/id/7-M.jpg'']"
proof -
  have a: "''/plug/img_cache/7.jpg'' \<noteq> default_book_icon env1"
    by (simp add: default_book_icon_def os_path_join_def startswith_def env1_def)
  have b: "\<not> faults env1 (OsGetsize ''/plug/img_cache/7.jpg'')"
    by (simp add: env1_def)
  have c: "get_cover_image env1 (PInt 7) PNone world0
      = (''/plug/img_cache/7.jpg'', snd (get_cover_image env1 (PInt 7) PNone world0))"
    using example_first_call by (cases "get_cover_image env1 (PInt 7) PNone world0") simp
  show ?thesis
    using warm_cache_idempotent [OF c a b] example_first_call a b by simp
qed

section \<open>Blank search terms\<close>

lemma str_strip_blank:
  "\<forall>c\<in>set s. is_space c \<Longrightarrow> str_strip s = []"
  by (auto simp: str_strip_def dest: set_dropWhileD)

lemma search_blank:
  "\<forall>c\<in>set search_term. is_space c \<Longrightarrow> search_openlibrary_api E search_term w = ([], w)"
  by (simp add: search_openlibrary_api_def str_strip_blank)

lemma query_blank:
  "\<forall>c\<in>set search_term. is_space c \<Longrightarrow>
     query E search_term w
       = ([if search_term = [] then start_item E else no_books_item E search_term], w)"
  by (simp add: query_def search_blank)

text \<open>
  C8. For a search term that is empty or made of whitespace only, \<open>query\<close> returns exactly
  one item, a placeholder (the start-typing item or the no-books item, with the application
  icon and no action), and leaves the world as it was: no network request is made.
\<close>

theorem blank_query_placeholder:
  assumes "\<forall>c\<in>set search_term. is_space c"
  shows "(\<exists>item. fst (query E search_term w) = [item]
           \<and> (item = start_item E \<or> item = no_books_item E search_term)
           \<and> IcoPath item = app_icon E \<and> JsonRPCAction item = None)
    \<and> snd (query E search_term w) = w
    \<and> net_calls (trace (snd (query E search_term w))) = net_calls (trace w)"
  using query_blank [OF assms, of E w] by (auto simp: start_item_def no_books_item_def)

theorem blank_query_placeholder_witness:
  "is_space (CHR '' '') \<and> is_space (CHR 0x09) \<and> is_space (CHR 0xA0)
   \<and> length (fst (query env0 [CHR '' '', CHR 0x09, CHR 0xA0] world0)) = 1
   \<and> snd (query env0 [CHR '' '', CHR 0x09, CHR 0xA0] world0) = world0
   \<and> net_calls (trace (snd (query env0 [CHR '' '', CHR 0x09, CHR 0xA0] world0))) = []"
proof -
  have a: "\<forall>c\<in>set [CHR '' '', CHR 0x09, CHR 0xA0]. is_space c"
    by (simp add: is_space_def)
  show ?thesis
    using a blank_query_placeholder [OF a, of env0 world0]
    by (auto simp: world0_def)
qed

lemma process_all_action:
  "r \<in> set (fst (process_all E bs w)) \<Longrightarrow> JsonRPCAction r \<noteq> None"
proof (induction bs arbitrary: w)
  case Nil
  then show ?case by simp
next
  case (Cons b bs)
  obtain x w1 where p: "process_book_data E b w = (x, w1)"
    by (cases "process_book_data E b w")
  obtain xs w2 where q: "process_all E bs w1 = (xs, w2)"
    by (cases "process_all E bs w1")
  have "JsonRPCAction x \<noteq> None"
    using p by (auto simp: process_book_data_def Let_def split: prod.splits)
  moreover have "r = x \<or> r \<in> set (fst (process_all E bs w1))"
    using Cons.prems p q by auto
  ultimately show ?case
    using Cons.IH [of w1] by auto
qed

lemma query_start_item_iff:
  "fst (query E search_term w) = [start_item E] \<longleftrightarrow> search_term = []"
proof
  assume "search_term = []"
  then show "fst (query E search_term w) = [start_item E]" by (simp add: query_def)
next
  assume a: "fst (query E search_term w) = [start_item E]"
  show "search_term = []"
  proof (rule ccontr)
    assume ne: "search_term \<noteq> []"
    obtain bs w1 where s: "search_openlibrary_api E search_term w = (bs, w1)"
      by (cases "search_openlibrary_api E search_term w")
    obtain rs w2 where p: "(if bs \<noteq> [] then process_all E bs w1 else ([], w1)) = (rs, w2)"
      by (cases "if bs \<noteq> [] then process_all E bs w1 else ([], w1)")
    have q: "fst (query E search_term w) = (if rs = [] then [no_books_item E search_term] else rs)"
      using ne s p by (simp add: query_def)
    have "\<forall>r\<in>set rs. JsonRPCAction r \<noteq> None"
      using p process_all_action [of _ E bs w1] by (auto split: if_splits)
    then show False
      using a q by (auto simp: start_item_def no_books_item_def split: if_splits)
  qed
qed

text \<open>
  C10. For a non-empty term made of whitespace only, the search client returns the empty
  list without a request, and \<open>query\<close> returns the single "No books found" item, whose
  title carries the term as given; that item is not the start-typing item. The start-typing
  item alone is returned exactly for the empty term.
\<close>

theorem whitespace_term_not_start_branch:
  "(search_term \<noteq> [] \<and> (\<forall>c\<in>set search_term. is_space c) \<longrightarrow>
       search_openlibrary_api E search_term w = ([], w)
       \<and> query E search_term w = ([no_books_item E search_term], w)
       \<and> Title (no_books_item E search_term)
            = PStr (''No books found for '' @ [CHR 0x27] @ search_term @ [CHR 0x27])
       \<and> no_books_item E search_term \<noteq> start_item E)
   \<and> query E [] w = ([start_item E], w)
   \<and> (fst (query E search_term w) = [start_item E] \<longleftrightarrow> search_term = [])"
  using query_blank [of search_term E w] search_blank [of search_term E w]
    query_start_item_iff [of E search_term w]
  by (auto simp: query_def no_books_item_def start_item_def)

theorem whitespace_term_not_start_branch_witness:
  "[CHR '' '', CHR '' ''] \<noteq> [] \<and> is_space (CHR '' '')
   \<and> search_openlibrary_api env0 [CHR '' '', CHR '' ''] world0 = ([], world0)
   \<and> query env0 [CHR '' '', CHR '' ''] world0
       = ([\<lparr>Title = PStr (''No books found for '' @ [CHR 0x27, CHR '' '', CHR '' '', CHR 0x27]),
            SubTitle = ''Try a different search term'',
            IcoPath = ''/plug/app.png'', JsonRPCAction = None\<rparr>], world0)"
proof -
  have a: "\<forall>c\<in>set [CHR '' '', CHR '' '']. is_space c"
    by (simp add: is_space_def)
  show ?thesis
    using a whitespace_term_not_start_branch [of "[CHR '' '', CHR '' '']" env0 world0]
    by (simp add: no_books_item_def app_icon_def os_path_join_def startswith_def env0_def)
qed

section \<open>Rounding to a double\<close>

lemma pow2_pos [simp]: "0 < (2::real) powi e"
  by (simp add: power_int_def)

lemma pow2_less_iff: "(2::real) powi a < 2 powi b \<longleftrightarrow> a < b"
  using power_int_strict_increasing [of a b "2::real"] power_int_increasing [of b a "2::real"]
  by (cases "a < b") auto

lemma pow2_le_iff: "(2::real) powi a \<le> 2 powi b \<longleftrightarrow> a \<le> b"
  using pow2_less_iff [of b a] by auto

lemma ilog2_bounds:
  assumes "0 < x"
  shows "2 powi (ilog2 x) \<le> x \<and> x < 2 powi (ilog2 x + 1)"
proof (cases "1 \<le> x")
  case True
  define n where "n = \<lfloor>x\<rfloor>"
  have n: "0 < n" using True by (simp add: n_def)
  have b1: "1 \<le> bitlen n"
    using n bitlen_eq_zero_iff [of n] bitlen_nonneg [of n] by linarith
  from bitlen_bounds [OF n] have i: "2 ^ nat (bitlen n - 1) \<le> n" "n + 1 \<le> 2 ^ nat (bitlen n)"
    by simp_all
  have "(of_int (2 ^ nat (bitlen n - 1)) :: real) \<le> of_int n"
    using i(1) by (simp only: of_int_le_iff)
  then have l: "(2::real) ^ nat (bitlen n - 1) \<le> of_int n"
    by simp
  have "(of_int (n + 1) :: real) \<le> of_int (2 ^ nat (bitlen n))"
    using i(2) by (simp only: of_int_le_iff)
  then have u: "of_int n + 1 \<le> (2::real) ^ nat (bitlen n)"
    by simp
  have x: "of_int n \<le> x" "x < of_int n + 1"
    by (simp_all add: n_def)
  have p: "(2::real) powi (bitlen n - 1) = 2 ^ nat (bitlen n - 1)"
    "(2::real) powi (bitlen n - 1 + 1) = 2 ^ nat (bitlen n)"
    using b1 by (simp_all add: power_int_def)
  have "2 powi (bitlen n - 1) \<le> x \<and> x < 2 powi (bitlen n - 1 + 1)"
    unfolding p using l u x by linarith
  then show ?thesis
    using True by (simp add: ilog2_def n_def [symmetric])
next
  case False
  define c where "c = \<lceil>1 / x\<rceil>"
  have y: "1 < 1 / x" using False assms by simp
  then have c: "1 < c" by (simp add: c_def less_ceiling_iff)
  define k where "k = bitlen (c - 1)"
  have k1: "1 \<le> k"
    using c bitlen_eq_zero_iff [of "c - 1"] bitlen_nonneg [of "c - 1"] by (simp add: k_def)
  from bitlen_bounds [of "c - 1"] c have i: "2 ^ nat (k - 1) \<le> c - 1" "c \<le> 2 ^ nat k"
    by (simp_all add: k_def)
  have "(of_int (2 ^ nat (k - 1)) :: real) \<le> of_int (c - 1)"
    using i(1) by (simp only: of_int_le_iff)
  then have l: "(2::real) ^ nat (k - 1) \<le> of_int c - 1"
    by simp
  have "(of_int c :: real) \<le> of_int (2 ^ nat k)"
    using i(2) by (simp only: of_int_le_iff)
  then have u: "of_int c \<le> (2::real) ^ nat k"
    by simp
  have cx: "1 / x \<le> of_int c" "of_int c - 1 < 1 / x"
    unfolding c_def by linarith+
  have r: "1 / x \<le> 2 ^ nat k" "2 ^ nat (k - 1) < 1 / x"
    using l u cx by linarith+
  have lo: "1 / 2 ^ nat k \<le> x"
  proof -
    have "1 \<le> 2 ^ nat k * x"
      using r(1) assms by (simp add: field_simps)
    then show ?thesis
      by (simp add: field_simps)
  qed
  have hi: "x < 1 / 2 ^ nat (k - 1)"
  proof -
    have "2 ^ nat (k - 1) * x < 1"
      using r(2) assms by (simp add: field_simps)
    then show ?thesis
      by (simp add: field_simps)
  qed
  have p: "(2::real) powi (- k) = 1 / 2 ^ nat k" "(2::real) powi (- k + 1) = 1 / 2 ^ nat (k - 1)"
    using k1 by (simp_all add: power_int_def field_simps)
  have "2 powi (- k) \<le> x \<and> x < 2 powi (- k + 1)"
    unfolding p using lo hi by simp
  then show ?thesis
    using False by (simp add: ilog2_def c_def [symmetric] k_def [symmetric])
qed

lemma round_half_even_ge:
  assumes "of_int N \<le> m"
  shows "N \<le> round_half_even m"
proof -
  have "N \<le> \<lfloor>m\<rfloor>" using assms by (simp add: le_floor_iff)
  then show ?thesis by (simp add: round_half_even_def Let_def)
qed

lemma round_half_even_le:
  assumes "m \<le> of_int N"
  shows "round_half_even m \<le> N"
proof -
  have f: "\<lfloor>m\<rfloor> \<le> N"
    using floor_mono [OF assms] by simp
  show ?thesis
  proof (cases "\<lfloor>m\<rfloor> = N")
    case True
    then have "m = of_int N" using assms by linarith
    then show ?thesis by (simp add: round_half_even_def Let_def)
  next
    case False
    with f have "\<lfloor>m\<rfloor> + 1 \<le> N" by simp
    with f show ?thesis by (simp add: round_half_even_def Let_def)
  qed
qed

lemma round_double_pos:
  assumes "0 < x"
  shows "round_double x
     = of_int (round_half_even (x / 2 powi (max (ilog2 x) (- 1022) - 52)))
         * 2 powi (max (ilog2 x) (- 1022) - 52)"
  using assms by (simp add: round_double_def Let_def)

lemma pow2_split53: "(2::real) powi (e + 1) = 2 powi 53 * 2 powi (e - 52)"
proof -
  have "(2::real) powi (53 + (e - 52)) = 2 powi 53 * 2 powi (e - 52)"
    by (rule power_int_add) simp
  moreover have "53 + (e - 52) = e + 1"
    by simp
  ultimately show ?thesis
    by (simp only:)
qed

lemma pow2_split52: "(2::real) powi e = 2 powi 52 * 2 powi (e - 52)"
proof -
  have "(2::real) powi (52 + (e - 52)) = 2 powi 52 * 2 powi (e - 52)"
    by (rule power_int_add) simp
  moreover have "52 + (e - 52) = e"
    by simp
  ultimately show ?thesis
    by (simp only:)
qed

lemma round_double_le_threshold:
  assumes "x \<le> 259200"
  shows "round_double x \<le> 259200"
proof -
  consider (zero) "x = 0" | (neg) "x < 0" | (pos) "0 < x" by linarith
  then show ?thesis
  proof cases
    case zero
    then show ?thesis by (simp add: round_double_def)
  next
    case neg
    define ulp where "ulp = (2::real) powi (max (ilog2 \<bar>x\<bar>) (- 1022) - 52)"
    have u: "0 < ulp" by (simp add: ulp_def)
    have "of_int 0 \<le> \<bar>x\<bar> / ulp" using u by simp
    then have "0 \<le> round_half_even (\<bar>x\<bar> / ulp)" by (rule round_half_even_ge)
    then have "0 \<le> of_int (round_half_even (\<bar>x\<bar> / ulp)) * ulp"
      using u by simp
    then have "round_double x \<le> 0"
      using neg by (simp add: round_double_def Let_def ulp_def)
    then show ?thesis by linarith
  next
    case pos
    define e0 where "e0 = ilog2 x"
    define e where "e = max e0 (- 1022)"
    define ulp where "ulp = (2::real) powi (e - 52)"
    have u: "0 < ulp" by (simp add: ulp_def)
    have rd: "round_double x = of_int (round_half_even (x / ulp)) * ulp"
      using round_double_pos [OF pos] by (simp add: ulp_def e_def e0_def)
    from ilog2_bounds [OF pos] have b: "2 powi e0 \<le> x" "x < 2 powi (e0 + 1)"
      by (simp_all add: e0_def)
    have "(2::real) powi e0 < 2 powi 18"
      using b(1) assms by simp
    then have e0: "e0 \<le> 17"
      using pow2_less_iff [of e0 18] by simp
    then have e17: "e \<le> 17" and ee: "e0 \<le> e"
      by (simp_all add: e_def)
    show ?thesis
    proof (cases "e = 17")
      case True
      then have ulp: "ulp = 1 / 2 ^ 35"
        by (simp add: ulp_def)
      have "x / ulp \<le> of_int (259200 * 2 ^ 35)"
        using assms by (simp add: ulp)
      then have "round_half_even (x / ulp) \<le> 259200 * 2 ^ 35"
        by (rule round_half_even_le)
      then have "(of_int (round_half_even (x / ulp)) :: real) \<le> of_int (259200 * 2 ^ 35)"
        by (simp only: of_int_le_iff)
      then show ?thesis
        by (simp add: rd ulp)
    next
      case False
      with e17 have e16: "e \<le> 16" by simp
      have "x < 2 powi (e + 1)"
        using b(2) ee power_int_increasing [of "e0 + 1" "e + 1" "2::real"] by simp
      also have "\<dots> = 2 powi 53 * ulp"
        unfolding ulp_def by (rule pow2_split53)
      finally have "x / ulp < 2 powi 53"
        using u by (simp add: field_simps)
      then have "x / ulp \<le> of_int (2 ^ 53)"
        by simp
      then have "round_half_even (x / ulp) \<le> 2 ^ 53"
        by (rule round_half_even_le)
      then have "(of_int (round_half_even (x / ulp)) :: real) \<le> of_int (2 ^ 53)"
        by (simp only: of_int_le_iff)
      then have "of_int (round_half_even (x / ulp)) * ulp \<le> 2 powi 53 * ulp"
        using u by simp
      also have "\<dots> = 2 powi (e + 1)"
        unfolding ulp_def by (rule pow2_split53 [symmetric])
      also have "\<dots> \<le> 2 powi 17"
        using e16 power_int_increasing [of "e + 1" 17 "2::real"] by simp
      finally show ?thesis
        by (simp add: rd)
    qed
  qed
qed

lemma round_double_gt_threshold:
  assumes "259200 + 1 / 2 ^ 35 \<le> x"
  shows "259200 < round_double x"
proof -
  have t: "(0::real) < 1 / 2 ^ 35" "(2::real) powi 17 \<le> 259200"
    by simp_all
  have pos: "0 < x"
    using assms t(1) by linarith
  define e where "e = ilog2 x"
  define ulp where "ulp = (2::real) powi (e - 52)"
  have u: "0 < ulp" by (simp add: ulp_def)
  from ilog2_bounds [OF pos] have b: "2 powi e \<le> x" "x < 2 powi (e + 1)"
    by (simp_all add: e_def)
  have x17: "(2::real) powi 17 \<le> x"
    using assms t by linarith
  have "(2::real) powi 17 < 2 powi (e + 1)"
    using x17 b(2) by linarith
  then have e17: "17 \<le> e"
    using pow2_less_iff [of 17 "e + 1"] by simp
  then have m: "max e (- 1022) = e" by simp
  have rd: "round_double x = of_int (round_half_even (x / ulp)) * ulp"
    using round_double_pos [OF pos] by (simp add: ulp_def e_def [symmetric] m)
  show ?thesis
  proof (cases "e = 17")
    case True
    then have ulp: "ulp = 1 / 2 ^ 35"
      by (simp add: ulp_def)
    have "of_int (259200 * 2 ^ 35 + 1) \<le> x / ulp"
      using assms by (simp add: ulp field_simps)
    then have "259200 * 2 ^ 35 + 1 \<le> round_half_even (x / ulp)"
      by (rule round_half_even_ge)
    then have "(of_int (259200 * 2 ^ 35 + 1) :: real) \<le> of_int (round_half_even (x / ulp))"
      by (simp only: of_int_le_iff)
    then show ?thesis
      by (simp add: rd ulp field_simps)
  next
    case False
    with e17 have e18: "18 \<le> e" by simp
    have "2 powi 52 * ulp = 2 powi e"
      unfolding ulp_def by (rule pow2_split52 [symmetric])
    then have "2 powi 52 * ulp \<le> x"
      using b(1) by simp
    then have "of_int (2 ^ 52) \<le> x / ulp"
      using u by (simp add: field_simps)
    then have "2 ^ 52 \<le> round_half_even (x / ulp)"
      by (rule round_half_even_ge)
    then have "(of_int (2 ^ 52) :: real) \<le> of_int (round_half_even (x / ulp))"
      by (simp only: of_int_le_iff)
    then have "2 powi 52 * ulp \<le> of_int (round_half_even (x / ulp)) * ulp"
      using u by simp
    moreover have "2 powi 52 * ulp = 2 powi e"
      unfolding ulp_def by (rule pow2_split52 [symmetric])
    moreover have "(2::real) powi 18 \<le> 2 powi e"
      using e18 power_int_increasing [of 18 e "2::real"] by simp
    ultimately show ?thesis
      by (simp add: rd)
  qed
qed

lemma float_sub_examples:
  "float_sub 1000000 654400 = 345600"
  "float_sub 1000000 827200 = 172800"
  by code_simp+

section \<open>The eviction sweep\<close>

lemma os_path_isfile_simps [simp]:
  "fst (os_path_isfile p w)
     = (case map_of (files w) p of None \<Rightarrow> False | Some e \<Rightarrow> kind e = RegularFile)"
  "snd (os_path_isfile p w) = log_op (OsIsfile p) w"
  by (simp_all add: os_path_isfile_def)

lemma os_path_getmtime_simps [simp]:
  "fst (os_path_getmtime E p w)
     = (if faults E (OsGetmtime p) then None else map_option mtime (map_of (files w) p))"
  "snd (os_path_getmtime E p w) = log_op (OsGetmtime p) w"
  by (simp_all add: os_path_getmtime_def)

text \<open>One round of the loop, with the calls spelled out.\<close>

lemma sweep_Cons:
  "sweep E now (f # rest) w =
     (let p = os_path_join (cache_dir E) f; w1 = log_op (OsIsfile p) w;
          w2 = log_op (OsGetmtime p) w1; w3 = log_op (OsRemove p) w2
      in case map_of (files w) p of
           None \<Rightarrow> sweep E now rest w1
         | Some e \<Rightarrow>
             if kind e \<noteq> RegularFile then sweep E now rest w1
             else if faults E (OsGetmtime p) then (False, w2)
             else if \<not> float_sub now (mtime e) > age_limit_seconds then sweep E now rest w2
             else if faults E (OsRemove p) then (False, w3)
             else sweep E now rest (w3\<lparr>files := AList.delete p (files w)\<rparr>))"
proof -
  define p where "p = os_path_join (cache_dir E) f"
  obtain b w1 where i: "os_path_isfile p w = (b, w1)"
    by (cases "os_path_isfile p w")
  obtain m w2 where g: "os_path_getmtime E p w1 = (m, w2)"
    by (cases "os_path_getmtime E p w1")
  obtain ok w3 where r: "os_remove E p w2 = (ok, w3)"
    by (cases "os_remove E p w2")
  have i': "b = (case map_of (files w) p of None \<Rightarrow> False | Some e \<Rightarrow> kind e = RegularFile)"
    "w1 = log_op (OsIsfile p) w"
    using i os_path_isfile_simps [of p w] by simp_all
  have g': "m = (if faults E (OsGetmtime p) then None else map_option mtime (map_of (files w) p))"
    "w2 = log_op (OsGetmtime p) w1"
    using g os_path_getmtime_simps [of E p w1] by (simp_all add: i')
  show ?thesis
    using i g r unfolding i' g'
    by (auto simp: p_def [symmetric] Let_def os_remove_def split: option.splits if_splits)
qed

lemmas sweep_step = sweep_Cons [unfolded Let_def]

text \<open>The loop only removes, and only expired regular files that it was asked to visit.\<close>

lemma sweep_changes:
  "map_of (files (snd (sweep E now names w))) q \<noteq> map_of (files w) q \<Longrightarrow>
     map_of (files (snd (sweep E now names w))) q = None
     \<and> q \<in> os_path_join (cache_dir E) ` set names
     \<and> (\<exists>e. map_of (files w) q = Some e \<and> expired now e)"
proof (induction names arbitrary: w)
  case Nil
  then show ?case by simp
next
  case (Cons f rest)
  define p where "p = os_path_join (cache_dir E) f"
  have keep: ?case
    if "sweep E now (f # rest) w = sweep E now rest w'" "files w' = files w" for w'
    using Cons.IH [of w'] Cons.prems that by auto
  have stop: ?case
    if "sweep E now (f # rest) w = (False, w')" "files w' = files w" for w'
    using Cons.prems that by simp
  show ?case
  proof (cases "map_of (files w) p")
    case None
    then show ?thesis
      by (intro keep [of "log_op (OsIsfile p) w"]) (simp_all add: sweep_step p_def del: sweep.simps)
  next
    case (Some e)
    consider (other) "kind e \<noteq> RegularFile"
      | (stat) "kind e = RegularFile" "faults E (OsGetmtime p)"
      | (fresh) "kind e = RegularFile" "\<not> faults E (OsGetmtime p)"
          "\<not> float_sub now (mtime e) > age_limit_seconds"
      | (locked) "kind e = RegularFile" "\<not> faults E (OsGetmtime p)"
          "float_sub now (mtime e) > age_limit_seconds" "faults E (OsRemove p)"
      | (gone) "kind e = RegularFile" "\<not> faults E (OsGetmtime p)"
          "float_sub now (mtime e) > age_limit_seconds" "\<not> faults E (OsRemove p)"
      by blast
    then show ?thesis
    proof cases
      case other
      with Some show ?thesis
        by (intro keep [of "log_op (OsIsfile p) w"]) (simp_all add: sweep_step p_def del: sweep.simps)
    next
      case stat
      with Some show ?thesis
        by (intro stop [of "log_op (OsGetmtime p) (log_op (OsIsfile p) w)"])
           (simp_all add: sweep_step p_def del: sweep.simps)
    next
      case fresh
      with Some show ?thesis
        by (intro keep [of "log_op (OsGetmtime p) (log_op (OsIsfile p) w)"])
           (simp_all add: sweep_step p_def del: sweep.simps)
    next
      case locked
      with Some show ?thesis
        by (intro stop [of "log_op (OsRemove p) (log_op (OsGetmtime p) (log_op (OsIsfile p) w))"])
           (simp_all add: sweep_step p_def del: sweep.simps)
    next
      case gone
      define w' where "w' = (log_op (OsRemove p) (log_op (OsGetmtime p) (log_op (OsIsfile p) w)))
          \<lparr>files := AList.delete p (files w)\<rparr>"
      have s: "sweep E now (f # rest) w = sweep E now rest w'"
        using Some gone by (simp add: sweep_step p_def w'_def del: sweep.simps)
      have m: "map_of (files w') x = (if x = p then None else map_of (files w) x)" for x
        by (simp add: w'_def delete_conv)
      show ?thesis
      proof (cases "map_of (files (snd (sweep E now rest w'))) q = map_of (files w') q")
        case True
        with Cons.prems s m [of q] have "q = p" by (auto split: if_splits)
        with True s m [of q] Some gone show ?thesis
          by (auto simp: p_def expired_def)
      next
        case False
        from Cons.IH [OF False] s m [of q] show ?thesis
          by (auto split: if_splits)
      qed
    qed
  qed
qed

lemma sweep_frame:
  "q \<notin> os_path_join (cache_dir E) ` set names
     \<Longrightarrow> map_of (files (snd (sweep E now names w))) q = map_of (files w) q"
  using sweep_changes [of E now names w q] by blast

lemma sweep_keeps:
  "map_of (files w) q = Some e \<Longrightarrow> \<not> expired now e
     \<Longrightarrow> map_of (files (snd (sweep E now names w))) q = Some e"
  using sweep_changes [of E now names w q] by force

lemma sweep_absent:
  "map_of (files w) q = None \<Longrightarrow> map_of (files (snd (sweep E now names w))) q = None"
  using sweep_changes [of E now names w q] by force

text \<open>Without faults the loop runs to its end and removes every expired file listed.\<close>

lemma sweep_removes:
  assumes "\<forall>f\<in>set names. \<not> faults E (OsGetmtime (os_path_join (cache_dir E) f))
                          \<and> \<not> faults E (OsRemove (os_path_join (cache_dir E) f))"
  shows "fst (sweep E now names w)
    \<and> (\<forall>f\<in>set names. \<forall>e. map_of (files w) (os_path_join (cache_dir E) f) = Some e
           \<and> expired now e
           \<longrightarrow> map_of (files (snd (sweep E now names w))) (os_path_join (cache_dir E) f) = None)"
  using assms
proof (induction names arbitrary: w)
  case Nil
  show ?case by simp
next
  case (Cons f rest)
  define p where "p = os_path_join (cache_dir E) f"
  have nf: "\<not> faults E (OsGetmtime p)" "\<not> faults E (OsRemove p)"
    using Cons.prems by (simp_all add: p_def)
  have rest: "\<forall>f\<in>set rest. \<not> faults E (OsGetmtime (os_path_join (cache_dir E) f))
                          \<and> \<not> faults E (OsRemove (os_path_join (cache_dir E) f))"
    using Cons.prems by simp
  obtain w' where s: "sweep E now (f # rest) w = sweep E now rest w'"
    and m: "\<And>x. map_of (files w') x
        = (if x = p \<and> (\<exists>e. map_of (files w) p = Some e \<and> expired now e) then None
           else map_of (files w) x)"
  proof (cases "\<exists>e. map_of (files w) p = Some e \<and> expired now e")
    case True
    then obtain e where e: "map_of (files w) p = Some e" "expired now e" by blast
    show ?thesis
      by (rule that [of "(log_op (OsRemove p) (log_op (OsGetmtime p) (log_op (OsIsfile p) w)))
          \<lparr>files := AList.delete p (files w)\<rparr>"])
         (use e nf in \<open>auto simp: sweep_step p_def [symmetric] expired_def delete_conv
             simp del: sweep.simps\<close>)
  next
    case False
    show ?thesis
    proof (cases "map_of (files w) p")
      case None
      show ?thesis
        by (rule that [of "log_op (OsIsfile p) w"])
           (use None False in \<open>auto simp: sweep_step p_def [symmetric] simp del: sweep.simps\<close>)
    next
      case (Some e)
      show ?thesis
      proof (cases "kind e = RegularFile")
        case True
        show ?thesis
          by (rule that [of "log_op (OsGetmtime p) (log_op (OsIsfile p) w)"])
             (use Some True False nf in \<open>auto simp: sweep_step p_def [symmetric] expired_def
                 simp del: sweep.simps\<close>)
      next
        case False
        show ?thesis
          by (rule that [of "log_op (OsIsfile p) w"])
             (use Some False in \<open>auto simp: sweep_step p_def [symmetric] expired_def
                 simp del: sweep.simps\<close>)
      qed
    qed
  qed
  from Cons.IH [OF rest, of w']
  have ih: "fst (sweep E now rest w')"
    "\<And>g e. g \<in> set rest \<Longrightarrow> map_of (files w') (os_path_join (cache_dir E) g) = Some e
        \<Longrightarrow> expired now e
        \<Longrightarrow> map_of (files (snd (sweep E now rest w'))) (os_path_join (cache_dir E) g) = None"
    by blast+
  show ?case
  proof (intro conjI ballI allI impI)
    show "fst (sweep E now (f # rest) w)"
      using s ih(1) by simp
  next
    fix g e
    assume g: "g \<in> set (f # rest)"
      and e: "map_of (files w) (os_path_join (cache_dir E) g) = Some e \<and> expired now e"
    define q where "q = os_path_join (cache_dir E) g"
    show "map_of (files (snd (sweep E now (f # rest) w))) (os_path_join (cache_dir E) g) = None"
    proof (cases "q = p")
      case True
      then have "map_of (files w') q = None"
        using m [of q] e by (auto simp: q_def)
      then show ?thesis
        using sweep_absent [of w' q E now rest] s by (simp add: q_def)
    next
      case False
      then have "g \<in> set rest" "map_of (files w') q = Some e"
        using g e m [of q] by (auto simp: q_def p_def)
      then show ?thesis
        using ih(2) [of g e] e s by (simp add: q_def)
    qed
  qed
qed

lemma sweep_append:
  "sweep E now (pre @ rest) w =
     (if fst (sweep E now pre w) then sweep E now rest (snd (sweep E now pre w))
      else (False, snd (sweep E now pre w)))"
proof (induction pre arbitrary: w)
  case Nil
  show ?case by simp
next
  case (Cons f pre)
  show ?case
    using Cons.IH
    by (simp add: sweep_step del: sweep.simps split: option.splits)
qed

lemma child_name_join:
  assumes "child_name d p = Some n"
  shows "os_path_join d n = p"
proof -
  from assms have t: "take (length (dir_prefix d)) p = dir_prefix d"
    and n: "n = drop (length (dir_prefix d)) p" "n \<noteq> []" "CHR ''/'' \<notin> set n"
    by (auto simp: child_name_def Let_def split: if_splits)
  have "\<not> startswith n ''/''"
    using n(2,3) by (cases n) (auto simp: startswith_def)
  then have "os_path_join d n = dir_prefix d @ n"
    by (simp add: os_path_join_def dir_prefix_def)
  also have "\<dots> = p"
    using t n(1) append_take_drop_id [of "length (dir_prefix d)" p] by simp
  finally show ?thesis .
qed

lemma cache_listing_member:
  assumes "child_name (cache_dir E) p = Some n" "map_of (files w) p = Some e"
  shows "n \<in> set (cache_listing E w)"
proof -
  have "p \<in> set (map fst (files w))"
    using assms(2) by (auto dest: map_of_SomeD intro: rev_image_eqI)
  then show ?thesis
    using assms(1) by (force simp: cache_listing_def List.map_filter_def)
qed

lemma os_listdir_cache:
  assumes "map_of (files w) (cache_dir E) = Some d" "kind d = Directory"
    "\<not> faults E (OsListdir (cache_dir E))" "files w' = files w"
  shows "os_listdir E (cache_dir E) w'
     = (Some (cache_listing E w), log_op (OsListdir (cache_dir E)) w')"
  using assms by (simp add: os_listdir_def cache_listing_def)

lemma cleanup_sweeps:
  assumes "map_of (files w) (cache_dir E) = Some d" "kind d = Directory"
    "\<not> faults E (OsListdir (cache_dir E))"
  shows "cleanup_image_cache E w
     = snd (sweep E (clock E) (cache_listing E w)
         (log_op (OsListdir (cache_dir E)) (log_op (OsIsdir (cache_dir E)) w)))"
  using assms os_listdir_cache [OF assms, of "log_op (OsIsdir (cache_dir E)) w"]
  by (simp add: cleanup_image_cache_def os_path_isdir_def)

lemma cleanup_keeps:
  assumes "map_of (files w) q = Some e" "\<not> expired (clock E) e"
  shows "map_of (files (cleanup_image_cache E w)) q = Some e"
proof -
  obtain b w1 where i: "os_path_isdir (cache_dir E) w = (b, w1)"
    by (cases "os_path_isdir (cache_dir E) w")
  then have w1: "files w1 = files w"
    by (auto simp: os_path_isdir_def)
  obtain l w2 where l: "os_listdir E (cache_dir E) w1 = (l, w2)"
    by (cases "os_listdir E (cache_dir E) w1")
  then have w2: "files w2 = files w"
    using w1 by (auto simp: os_listdir_def)
  show ?thesis
    using i l w1 w2 assms sweep_keeps [of w2 q e "clock E" E]
    by (cases b; cases l) (simp_all add: cleanup_image_cache_def)
qed

lemma example_listing:
  "cache_listing env0 world2 = [''z.jpg'', ''a.jpg'', ''b.jpg'', ''new.jpg'']"
  "cache_listing env2 world2 = [''z.jpg'', ''a.jpg'', ''b.jpg'', ''new.jpg'']"
  by (simp_all add: cache_listing_def world2_def env0_def env2_def cache_dir_def os_path_join_def
      startswith_def child_name_def dir_prefix_def Let_def)

lemma cleanup_removes:
  assumes "map_of (files w) (cache_dir E) = Some d" "kind d = Directory"
    and "\<not> faults E (OsListdir (cache_dir E))"
    and "\<forall>x. \<not> faults E (OsGetmtime x) \<and> \<not> faults E (OsRemove x)"
    and "child_name (cache_dir E) p = Some n"
    and "map_of (files w) p = Some e" "expired (clock E) e"
  shows "map_of (files (cleanup_image_cache E w)) p = None"
proof -
  define w2 where "w2 = log_op (OsListdir (cache_dir E)) (log_op (OsIsdir (cache_dir E)) w)"
  have c: "cleanup_image_cache E w = snd (sweep E (clock E) (cache_listing E w) w2)"
    using cleanup_sweeps [OF assms(1-3)] by (simp add: w2_def)
  have n: "n \<in> set (cache_listing E w)" and p: "os_path_join (cache_dir E) n = p"
    using cache_listing_member [OF assms(5,6)] child_name_join [OF assms(5)]
    by simp_all
  have "map_of (files w2) (os_path_join (cache_dir E) n) = Some e"
    using assms(6) p by (simp add: w2_def)
  then show ?thesis
    using sweep_removes [of "cache_listing E w" E "clock E" w2] assms(4,7) n p c
    by auto
qed

text \<open>
  C9, as amended. With the limit of three days (259200 seconds), a sweep in which no call
  fails removes every regular file of the cache directory for which the difference now minus
  modification time, computed on doubles, is above 259200: in particular every file whose age
  is at least 259200 seconds plus \<open>1 / 2 ^ 35\<close> (a file four days old). Whatever fails, a file
  for which that difference is not above 259200 is left as it is: in particular every file
  whose age is at most three days (a file two days old).
\<close>

theorem eviction_by_age:
  "(map_of (files w) (cache_dir E) = Some d \<and> kind d = Directory
      \<and> \<not> faults E (OsListdir (cache_dir E))
      \<and> (\<forall>x. \<not> faults E (OsGetmtime x) \<and> \<not> faults E (OsRemove x))
      \<and> child_name (cache_dir E) p = Some n
      \<and> map_of (files w) p = Some e \<and> kind e = RegularFile
      \<and> (float_sub (clock E) (mtime e) > 3 * 24 * 60 * 60
          \<or> mtime e \<le> clock E - (3 * 24 * 60 * 60 + 1 / 2 ^ 35))
      \<longrightarrow> map_of (files (cleanup_image_cache E w)) p = None)
   \<and> (map_of (files w) q = Some e'
      \<and> (\<not> float_sub (clock E) (mtime e') > 3 * 24 * 60 * 60
          \<or> clock E - 3 * 24 * 60 * 60 \<le> mtime e')
      \<longrightarrow> map_of (files (cleanup_image_cache E w)) q = Some e')"
proof (intro conjI impI)
  assume a: "map_of (files w) (cache_dir E) = Some d \<and> kind d = Directory
      \<and> \<not> faults E (OsListdir (cache_dir E))
      \<and> (\<forall>x. \<not> faults E (OsGetmtime x) \<and> \<not> faults E (OsRemove x))
      \<and> child_name (cache_dir E) p = Some n
      \<and> map_of (files w) p = Some e \<and> kind e = RegularFile
      \<and> (float_sub (clock E) (mtime e) > 3 * 24 * 60 * 60
          \<or> mtime e \<le> clock E - (3 * 24 * 60 * 60 + 1 / 2 ^ 35))"
  have "float_sub (clock E) (mtime e) > 259200"
  proof (cases "float_sub (clock E) (mtime e) > 3 * 24 * 60 * 60")
    case True
    then show ?thesis by simp
  next
    case False
    with a have "259200 + 1 / 2 ^ 35 \<le> clock E - mtime e"
      by simp
    then show ?thesis
      unfolding float_sub_def by (rule round_double_gt_threshold)
  qed
  then have x: "expired (clock E) e"
    using a by (simp add: expired_def age_limit_seconds_def)
  show "map_of (files (cleanup_image_cache E w)) p = None"
    using cleanup_removes [of w E d p n e] a x by blast
next
  assume b: "map_of (files w) q = Some e'
      \<and> (\<not> float_sub (clock E) (mtime e') > 3 * 24 * 60 * 60
          \<or> clock E - 3 * 24 * 60 * 60 \<le> mtime e')"
  have "float_sub (clock E) (mtime e') \<le> 259200"
  proof (cases "float_sub (clock E) (mtime e') > 3 * 24 * 60 * 60")
    case False
    then show ?thesis by simp
  next
    case True
    with b have "clock E - mtime e' \<le> 259200"
      by simp
    then show ?thesis
      unfolding float_sub_def by (rule round_double_le_threshold)
  qed
  then have "\<not> expired (clock E) e'"
    by (simp add: expired_def age_limit_seconds_def)
  then show "map_of (files (cleanup_image_cache E w)) q = Some e'"
    using cleanup_keeps [of w q e' E] b by blast
qed

theorem eviction_by_age_witness:
  "map_of (files world2) (cache_dir env0) = Some \<lparr>kind = Directory, mtime = 0, fsize = 4096\<rparr>
   \<and> \<not> faults env0 (OsListdir (cache_dir env0))
   \<and> child_name (cache_dir env0) ''/plug/img_cache/z.jpg'' = Some ''z.jpg''
   \<and> map_of (files world2) ''/plug/img_cache/z.jpg''
        = Some \<lparr>kind = RegularFile, mtime = 654400, fsize = 2000\<rparr>
   \<and> float_sub (clock env0) 654400 > 3 * 24 * 60 * 60
   \<and> (654400 :: real) \<le> clock env0 - (3 * 24 * 60 * 60 + 1 / 2 ^ 35)
   \<and> map_of (files (cleanup_image_cache env0 world2)) ''/plug/img_cache/z.jpg'' = None
   \<and> map_of (files world2) ''/plug/img_cache/new.jpg''
        = Some \<lparr>kind = RegularFile, mtime = 827200, fsize = 2000\<rparr>
   \<and> \<not> float_sub (clock env0) 827200 > 3 * 24 * 60 * 60
   \<and> clock env0 - 3 * 24 * 60 * 60 \<le> (827200 :: real)
   \<and> map_of (files (cleanup_image_cache env0 world2)) ''/plug/img_cache/new.jpg''
        = Some \<lparr>kind = RegularFile, mtime = 827200, fsize = 2000\<rparr>"
proof -
  have cd: "cache_dir env0 = ''/plug/img_cache''"
    by (simp add: cache_dir_def os_path_join_def startswith_def env0_def)
  have ch: "child_name ''/plug/img_cache'' ''/plug/img_cache/z.jpg'' = Some ''z.jpg''"
    by (simp add: child_name_def dir_prefix_def Let_def)
  have nf: "\<forall>x. \<not> faults env0 (OsGetmtime x) \<and> \<not> faults env0 (OsRemove x)"
    "\<not> faults env0 (OsListdir ''/plug/img_cache'')"
    by (simp_all add: env0_def)
  have ck: "clock env0 = 1000000"
    by (simp add: env0_def)
  have fz: "map_of (files world2) ''/plug/img_cache'' = Some \<lparr>kind = Directory, mtime = 0, fsize = 4096\<rparr>"
    "map_of (files world2) ''/plug/img_cache/z.jpg''
        = Some \<lparr>kind = RegularFile, mtime = 654400, fsize = 2000\<rparr>"
    "map_of (files world2) ''/plug/img_cache/new.jpg''
        = Some \<lparr>kind = RegularFile, mtime = 827200, fsize = 2000\<rparr>"
    by (simp_all add: world2_def)
  show ?thesis
    using nf ch fz
      eviction_by_age [of world2 env0 "\<lparr>kind = Directory, mtime = 0, fsize = 4096\<rparr>"
        "''/plug/img_cache/z.jpg''" "''z.jpg''" "\<lparr>kind = RegularFile, mtime = 654400, fsize = 2000\<rparr>"
        "''/plug/img_cache/new.jpg''" "\<lparr>kind = RegularFile, mtime = 827200, fsize = 2000\<rparr>"]
    by (simp add: cd ck float_sub_examples)
qed

lemma float_sub_near_epoch:
  "float_sub now9 mtime9 = 259200"
  "round_double now9 = now9"
  "round_double mtime9 = mtime9"
  by code_simp+

text \<open>
  C9, as stated, fails: with the clock at \<open>259200 + 69 / 2 ^ 35\<close> and a cache file modified at
  the double nearest to two nanoseconds, both doubles, the modification time is before now
  minus three days, no call fails, and the file is still there after the sweep: the
  difference of the two doubles rounds to 259200, which is not above the limit.
\<close>

theorem rounded_age_keeps_file:
  "clock env9 = 259200 + 69 / 2 ^ 35 \<and> mtime9 = 4835703278458517 / 2 ^ 81
   \<and> round_double (clock env9) = clock env9 \<and> round_double mtime9 = mtime9
   \<and> map_of (files world9) (cache_dir env9)
        = Some \<lparr>kind = Directory, mtime = 0, fsize = 4096\<rparr>
   \<and> child_name (cache_dir env9) ''/plug/img_cache/old.jpg'' = Some ''old.jpg''
   \<and> map_of (files world9) ''/plug/img_cache/old.jpg''
        = Some \<lparr>kind = RegularFile, mtime = mtime9, fsize = 2000\<rparr>
   \<and> mtime9 < clock env9 - 3 * 24 * 60 * 60
   \<and> \<not> faults env9 (OsListdir (cache_dir env9))
   \<and> \<not> faults env9 (OsGetmtime ''/plug/img_cache/old.jpg'')
   \<and> \<not> faults env9 (OsRemove ''/plug/img_cache/old.jpg'')
   \<and> map_of (files (cleanup_image_cache env9 world9)) ''/plug/img_cache/old.jpg''
        = Some \<lparr>kind = RegularFile, mtime = mtime9, fsize = 2000\<rparr>"
proof -
  have ck: "clock env9 = now9" and nf: "faults env9 c = False" for c
    by (simp_all add: env9_def)
  have cd: "cache_dir env9 = ''/plug/img_cache''"
    by (simp add: cache_dir_def os_path_join_def startswith_def env9_def)
  have ch: "child_name ''/plug/img_cache'' ''/plug/img_cache/old.jpg'' = Some ''old.jpg''"
    by (simp add: child_name_def dir_prefix_def Let_def)
  have f: "map_of (files world9) ''/plug/img_cache''
        = Some \<lparr>kind = Directory, mtime = 0, fsize = 4096\<rparr>"
    "map_of (files world9) ''/plug/img_cache/old.jpg''
        = Some \<lparr>kind = RegularFile, mtime = mtime9, fsize = 2000\<rparr>"
    by (simp_all add: world9_def)
  have "\<not> expired (clock env9) \<lparr>kind = RegularFile, mtime = mtime9, fsize = 2000\<rparr>"
    by (simp add: expired_def ck float_sub_near_epoch age_limit_seconds_def)
  then have k: "map_of (files (cleanup_image_cache env9 world9)) ''/plug/img_cache/old.jpg''
        = Some \<lparr>kind = RegularFile, mtime = mtime9, fsize = 2000\<rparr>"
    using cleanup_keeps [OF f(2)] by simp
  have v: "now9 = 259200 + 69 / 2 ^ 35" "mtime9 = 4835703278458517 / 2 ^ 81"
    "mtime9 < now9 - 3 * 24 * 60 * 60"
    by (simp_all add: now9_def mtime9_def)
  show ?thesis
    using k v by (simp only: ck nf cd ch f float_sub_near_epoch) simp
qed

lemma sweep_fault_head:
  assumes "map_of (files w) (os_path_join (cache_dir E) f) = Some e" "kind e = RegularFile"
    and "faults E (OsGetmtime (os_path_join (cache_dir E) f))
         \<or> (float_sub now (mtime e) > age_limit_seconds
             \<and> faults E (OsRemove (os_path_join (cache_dir E) f)))"
  shows "\<not> fst (sweep E now (f # post) w) \<and> files (snd (sweep E now (f # post) w)) = files w"
  using assms by (auto simp: sweep_step simp del: sweep.simps)

lemma cleanup_stops:
  assumes "map_of (files w) (cache_dir E) = Some d" "kind d = Directory"
    and "\<not> faults E (OsListdir (cache_dir E))"
    and "cache_listing E w = pre @ f # post"
    and "os_path_join (cache_dir E) f \<notin> os_path_join (cache_dir E) ` set pre"
    and "map_of (files w) (os_path_join (cache_dir E) f) = Some e" "kind e = RegularFile"
    and "faults E (OsGetmtime (os_path_join (cache_dir E) f))
         \<or> (float_sub (clock E) (mtime e) > age_limit_seconds
             \<and> faults E (OsRemove (os_path_join (cache_dir E) f)))"
  shows "q \<notin> os_path_join (cache_dir E) ` set pre
           \<Longrightarrow> map_of (files (cleanup_image_cache E w)) q = map_of (files w) q"
    and "\<forall>g\<in>set pre. \<not> faults E (OsGetmtime (os_path_join (cache_dir E) g))
                      \<and> \<not> faults E (OsRemove (os_path_join (cache_dir E) g))
           \<Longrightarrow> g \<in> set pre \<Longrightarrow> map_of (files w) (os_path_join (cache_dir E) g) = Some e'
           \<Longrightarrow> expired (clock E) e'
           \<Longrightarrow> map_of (files (cleanup_image_cache E w)) (os_path_join (cache_dir E) g) = None"
proof -
  define fp where "fp = os_path_join (cache_dir E) f"
  define w2 where "w2 = log_op (OsListdir (cache_dir E)) (log_op (OsIsdir (cache_dir E)) w)"
  define w3 where "w3 = snd (sweep E (clock E) pre w2)"
  have w2: "files w2 = files w"
    by (simp add: w2_def)
  have c: "cleanup_image_cache E w = snd (sweep E (clock E) (pre @ f # post) w2)"
    using cleanup_sweeps [OF assms(1-3)] assms(4) by (simp add: w2_def)
  have "map_of (files w3) fp = Some e"
    using sweep_frame [of fp E pre "clock E" w2] assms(5,6) w2 by (simp add: w3_def fp_def)
  then have h: "files (snd (sweep E (clock E) (f # post) w3)) = files w3"
    using sweep_fault_head [of w3 E f e "clock E" post] assms(7,8) by (simp add: fp_def)
  have r: "files (cleanup_image_cache E w) = files w3"
    using h by (simp add: c sweep_append w3_def)
  show "map_of (files (cleanup_image_cache E w)) q = map_of (files w) q"
    if "q \<notin> os_path_join (cache_dir E) ` set pre"
    using sweep_frame [OF that, of "clock E" w2] w2 by (simp add: r w3_def)
  show "map_of (files (cleanup_image_cache E w)) (os_path_join (cache_dir E) g) = None"
    if "\<forall>g\<in>set pre. \<not> faults E (OsGetmtime (os_path_join (cache_dir E) g))
                      \<and> \<not> faults E (OsRemove (os_path_join (cache_dir E) g))"
      "g \<in> set pre" "map_of (files w) (os_path_join (cache_dir E) g) = Some e'"
      "expired (clock E) e'"
    using sweep_removes [OF that(1), of "clock E" w2] that(2-4) w2 by (simp add: r w3_def)
qed

text \<open>
  C2, as amended. A failure of \<^verbatim>\<open>getmtime\<close> or \<^verbatim>\<open>remove\<close> on one file is swallowed and ends
  the sweep: every path other than those listed before the failing file is as it was, so the
  failing file and the files listed after it stay, expired or not; the expired files listed
  before it are removed when their own calls do not fail.
\<close>

theorem sweep_stops_at_failure:
  assumes "map_of (files w) (cache_dir E) = Some d" and "kind d = Directory"
    and "\<not> faults E (OsListdir (cache_dir E))"
    and "cache_listing E w = pre @ f # post"
    and "os_path_join (cache_dir E) f \<notin> os_path_join (cache_dir E) ` set pre"
    and "map_of (files w) (os_path_join (cache_dir E) f) = Some e" and "kind e = RegularFile"
    and "faults E (OsGetmtime (os_path_join (cache_dir E) f))
         \<or> (float_sub (clock E) (mtime e) > age_limit_seconds
             \<and> faults E (OsRemove (os_path_join (cache_dir E) f)))"
  shows "(\<forall>q. q \<notin> os_path_join (cache_dir E) ` set pre
            \<longrightarrow> map_of (files (cleanup_image_cache E w)) q = map_of (files w) q)
    \<and> ((\<forall>g\<in>set pre. \<not> faults E (OsGetmtime (os_path_join (cache_dir E) g))
                      \<and> \<not> faults E (OsRemove (os_path_join (cache_dir E) g)))
        \<longrightarrow> (\<forall>g\<in>set pre. \<forall>e'. map_of (files w) (os_path_join (cache_dir E) g) = Some e'
               \<and> expired (clock E) e'
               \<longrightarrow> map_of (files (cleanup_image_cache E w)) (os_path_join (cache_dir E) g) = None))"
  using cleanup_stops [OF assms] by blast

lemma example_paths:
  "cache_dir env2 = ''/plug/img_cache''"
  "os_path_join ''/plug/img_cache'' ''z.jpg'' = ''/plug/img_cache/z.jpg''"
  "os_path_join ''/plug/img_cache'' ''a.jpg'' = ''/plug/img_cache/a.jpg''"
  "os_path_join ''/plug/img_cache'' ''b.jpg'' = ''/plug/img_cache/b.jpg''"
  by (simp_all add: cache_dir_def os_path_join_def startswith_def env2_def)

lemma env2_reads:
  "clock env2 = 1000000"
  "faults env2 c = (c = OsRemove ''/plug/img_cache/a.jpg'')"
  by (simp_all add: env2_def)

lemma example_sweep_result:
  "map_of (files (cleanup_image_cache env2 world2)) ''/plug/img_cache/z.jpg'' = None"
  "map_of (files (cleanup_image_cache env2 world2)) ''/plug/img_cache/a.jpg''
     = Some \<lparr>kind = RegularFile, mtime = 654400, fsize = 2000\<rparr>"
  "map_of (files (cleanup_image_cache env2 world2)) ''/plug/img_cache/b.jpg''
     = Some \<lparr>kind = RegularFile, mtime = 654400, fsize = 2000\<rparr>"
proof -
  have l: "cache_listing env2 world2 = [''z.jpg''] @ ''a.jpg'' # [''b.jpg'', ''new.jpg'']"
    by (simp add: example_listing)
  have d: "map_of (files world2) (cache_dir env2)
      = Some \<lparr>kind = Directory, mtime = 0, fsize = 4096\<rparr>"
    by (simp add: example_paths world2_def)
  have a: "map_of (files world2) (os_path_join (cache_dir env2) ''a.jpg'')
      = Some \<lparr>kind = RegularFile, mtime = 654400, fsize = 2000\<rparr>"
    by (simp add: example_paths world2_def)
  have z: "map_of (files world2) (os_path_join (cache_dir env2) ''z.jpg'')
      = Some \<lparr>kind = RegularFile, mtime = 654400, fsize = 2000\<rparr>"
    by (simp add: example_paths world2_def)
  have f: "faults env2 (OsGetmtime (os_path_join (cache_dir env2) ''a.jpg''))
         \<or> (float_sub (clock env2) (mtime \<lparr>kind = RegularFile, mtime = 654400, fsize = 2000\<rparr>)
               > age_limit_seconds
             \<and> faults env2 (OsRemove (os_path_join (cache_dir env2) ''a.jpg'')))"
    by (simp add: example_paths env2_reads age_limit_seconds_def float_sub_examples)
  have n: "os_path_join (cache_dir env2) ''a.jpg'' \<notin> os_path_join (cache_dir env2) ` set [''z.jpg'']"
    by (simp add: example_paths)
  have nf: "\<forall>g\<in>set [''z.jpg'']. \<not> faults env2 (OsGetmtime (os_path_join (cache_dir env2) g))
                      \<and> \<not> faults env2 (OsRemove (os_path_join (cache_dir env2) g))"
    by (simp add: example_paths env2_reads)
  have x: "expired (clock env2) \<lparr>kind = RegularFile, mtime = 654400, fsize = 2000\<rparr>"
    by (simp add: expired_def env2_reads age_limit_seconds_def float_sub_examples)
  note st = cleanup_stops [OF d _ _ l n a _ f]
  show "map_of (files (cleanup_image_cache env2 world2)) ''/plug/img_cache/z.jpg'' = None"
    using st(2) [OF _ _ _ nf _ z x] by (simp add: example_paths env2_reads)
  show "map_of (files (cleanup_image_cache env2 world2)) ''/plug/img_cache/a.jpg''
     = Some \<lparr>kind = RegularFile, mtime = 654400, fsize = 2000\<rparr>"
    using st(1) [of "''/plug/img_cache/a.jpg''"] by (simp add: example_paths env2_reads world2_def)
  show "map_of (files (cleanup_image_cache env2 world2)) ''/plug/img_cache/b.jpg''
     = Some \<lparr>kind = RegularFile, mtime = 654400, fsize = 2000\<rparr>"
    using st(1) [of "''/plug/img_cache/b.jpg''"] by (simp add: example_paths env2_reads world2_def)
qed

text \<open>
  C2, as stated, fails: when \<^verbatim>\<open>a.jpg\<close> cannot be removed, the expired file \<^verbatim>\<open>b.jpg\<close>
  listed after it is still there after the sweep, although no call on \<^verbatim>\<open>b.jpg\<close> fails.
\<close>

theorem sweep_abandons_later_files:
  "map_of (files world2) ''/plug/img_cache/b.jpg''
      = Some \<lparr>kind = RegularFile, mtime = 654400, fsize = 2000\<rparr>
   \<and> (654400 :: real) < clock env2 - 3 * 24 * 60 * 60
   \<and> float_sub (clock env2) 654400 > age_limit_seconds
   \<and> \<not> faults env2 (OsGetmtime ''/plug/img_cache/b.jpg'')
   \<and> \<not> faults env2 (OsRemove ''/plug/img_cache/b.jpg'')
   \<and> faults env2 (OsRemove ''/plug/img_cache/a.jpg'')
   \<and> map_of (files (cleanup_image_cache env2 world2)) ''/plug/img_cache/b.jpg''
      = Some \<lparr>kind = RegularFile, mtime = 654400, fsize = 2000\<rparr>"
  using example_sweep_result(3)
  by (simp add: world2_def env2_reads age_limit_seconds_def float_sub_examples)

theorem sweep_stops_at_failure_witness:
  "map_of (files world2) (cache_dir env2) = Some \<lparr>kind = Directory, mtime = 0, fsize = 4096\<rparr>
   \<and> \<not> faults env2 (OsListdir (cache_dir env2))
   \<and> cache_listing env2 world2 = [''z.jpg''] @ ''a.jpg'' # [''b.jpg'', ''new.jpg'']
   \<and> map_of (files world2) (os_path_join (cache_dir env2) ''a.jpg'')
        = Some \<lparr>kind = RegularFile, mtime = 654400, fsize = 2000\<rparr>
   \<and> float_sub (clock env2) 654400 > age_limit_seconds
   \<and> faults env2 (OsRemove (os_path_join (cache_dir env2) ''a.jpg''))
   \<and> \<not> faults env2 (OsGetmtime (os_path_join (cache_dir env2) ''z.jpg''))
   \<and> \<not> faults env2 (OsRemove (os_path_join (cache_dir env2) ''z.jpg''))
   \<and> expired (clock env2) \<lparr>kind = RegularFile, mtime = 654400, fsize = 2000\<rparr>
   \<and> map_of (files (cleanup_image_cache env2 world2)) ''/plug/img_cache/z.jpg'' = None
   \<and> map_of (files (cleanup_image_cache env2 world2)) ''/plug/img_cache/a.jpg''
        = map_of (files world2) ''/plug/img_cache/a.jpg''
   \<and> map_of (files (cleanup_image_cache env2 world2)) ''/plug/img_cache/b.jpg''
        = map_of (files world2) ''/plug/img_cache/b.jpg''"
proof -
  have l: "cache_listing env2 world2 = [''z.jpg''] @ ''a.jpg'' # [''b.jpg'', ''new.jpg'']"
    by (simp add: example_listing)
  have d: "map_of (files world2) (cache_dir env2)
      = Some \<lparr>kind = Directory, mtime = 0, fsize = 4096\<rparr>"
    by (simp add: example_paths world2_def)
  have k: "kind \<lparr>kind = Directory, mtime = 0, fsize = 4096\<rparr> = Directory"
    "kind \<lparr>kind = RegularFile, mtime = 654400, fsize = 2000\<rparr> = RegularFile"
    by simp_all
  have nl: "\<not> faults env2 (OsListdir (cache_dir env2))"
    by (simp add: env2_reads)
  have a: "map_of (files world2) (os_path_join (cache_dir env2) ''a.jpg'')
      = Some \<lparr>kind = RegularFile, mtime = 654400, fsize = 2000\<rparr>"
    by (simp add: example_paths world2_def)
  have z: "map_of (files world2) (os_path_join (cache_dir env2) ''z.jpg'')
      = Some \<lparr>kind = RegularFile, mtime = 654400, fsize = 2000\<rparr>"
    by (simp add: example_paths world2_def)
  have f: "faults env2 (OsGetmtime (os_path_join (cache_dir env2) ''a.jpg''))
         \<or> (float_sub (clock env2) (mtime \<lparr>kind = RegularFile, mtime = 654400, fsize = 2000\<rparr>)
               > age_limit_seconds
             \<and> faults env2 (OsRemove (os_path_join (cache_dir env2) ''a.jpg'')))"
    by (simp add: example_paths env2_reads age_limit_seconds_def float_sub_examples)
  have n: "os_path_join (cache_dir env2) ''a.jpg'' \<notin> os_path_join (cache_dir env2) ` set [''z.jpg'']"
    by (simp add: example_paths)
  have x: "expired (clock env2) \<lparr>kind = RegularFile, mtime = 654400, fsize = 2000\<rparr>"
    by (simp add: expired_def env2_reads age_limit_seconds_def float_sub_examples)
  have c: "float_sub (clock env2) 654400 > age_limit_seconds"
    by (simp add: env2_reads age_limit_seconds_def float_sub_examples)
  show ?thesis
    using sweep_stops_at_failure [OF d k(1) nl l n a k(2) f] z l d a x c
    by (simp add: example_paths env2_reads)
qed

end
